theory Spec2Isabelle
  imports Main "HOL-Library.Word"
begin

unbundle bit_operations_syntax

section \<open>The C-RORC DMA channel (CrorcDmaChannel.cxx)\<close>

subsection \<open>Data\<close>

type_synonym u32 = "32 word"

text \<open>A signed 32-bit value is a \<^typ>\<open>32 word\<close> read with \<^const>\<open>sint\<close>.\<close>

type_synonym i32 = "32 word"

text \<open>
  Modelled from the spec: the Superpage class is not among the sources. The spec gives
  its attributes offset, size, received, ready and userData; the channel uses
  getOffset, getSize, setReceived and setReady.
\<close>

record Superpage =
  offset :: nat
  size_bytes :: nat
  received :: nat
  ready :: bool
  userData :: nat

text \<open>
  Modelled from the spec: the ReadyFifo structure is not among the sources. An entry is
  the pair (length, status) the card writes back; the code compares status with -1 and
  tests bit 31, so both are taken as signed 32-bit values. Resetting an entry puts it
  back to the sentinel -1 ("none arrived").
\<close>

record ReadyFifoEntry =
  length_words :: i32
  status :: i32

definition reset_entry :: ReadyFifoEntry where
  "reset_entry = \<lparr>length_words = - 1, status = - 1\<rparr>"

datatype DataSource = Internal | Fee | Siu | Diu | Ddg

datatype ResetLevel = Nothing | ResetInternal | InternalDiu | InternalDiuSiu

datatype FeeCommand = RDYRX | STBRD

datatype DataArrivalStatus = NoneArrived | PartArrived | WholeArrived

text \<open>
  The commands the channel sends to the card through getCrorc(). The card class is not
  among the sources, so the card is not modelled beyond this: a command is either
  accepted, and then recorded in the field \<open>crorc\<close> of the channel, or it raises.
\<close>

datatype ResetMask = RORC | DIU | SIU | FF | FIFOS | ERROR | COUNTERS

datatype CrorcCommand =
    InitDiuVersion
  | ResetCommand "ResetMask list"
  | ArmDdl ResetMask
  | AssertFreeFifoEmpty
  | StartDataReceiver
  | ArmDataGenerator nat
  | SetLoopbackOn | SetSiuLoopback | SetDiuLoopback
  | AssertLinkUp
  | SiuCommandRandCIFST | DiuCommandRandCIFST
  | StartDataGenerator
  | StartTrigger FeeCommand
  | PushRxFreeFifo nat nat nat

text \<open>
  Exceptions are values. \<open>Exception\<close> is the plain exception with its message;
  \<open>CrorcDataArrivalException\<close> carries message, status, length and slot.
  \<open>CardException\<close> stands for whatever a card command raises, \<open>Annotated\<close> for an
  exception to which armDdl has added the reset level and the data source, and
  \<open>InvalidSuperpage\<close> for whatever checkSuperpage raises (both are defined outside the
  sources; the spec calls the latter failure InvalidSuperpage).
  \<open>UndefinedBehaviour\<close> marks what C++ leaves undefined: an index outside the ready
  FIFO, front() of an empty queue.
\<close>

datatype error =
    Exception string
  | CrorcException string
  | CruException string
  | CrorcDataArrivalException string i32 i32 nat
  | CardException CrorcCommand
  | Annotated error ResetLevel DataSource
  | RuntimeError string
  | InvalidSuperpage
  | UndefinedBehaviour string

text \<open>
  The constants and helpers that CrorcDmaChannel.cxx uses and that are declared in
  headers outside the sources: they are parameters of the model.
  \<open>checkSuperpage\<close> is the validity test of the base class (true when it does not throw),
  \<open>getBusOffsetAddress\<close> the translation of a buffer offset to a bus address,
  \<open>isExternal\<close> the test DataSource::isExternal.
\<close>

record Constants =
  MAX_SUPERPAGE_DESCRIPTORS :: nat
  TRANSFER_QUEUE_CAPACITY :: nat
  READY_QUEUE_CAPACITY :: nat
  DMA_PAGE_SIZE :: nat
  FIFO_SIZE :: nat
  DTSW :: i32
  checkSuperpage :: "Superpage \<Rightarrow> bool"
  getBusOffsetAddress :: "nat \<Rightarrow> nat"
  isExternal :: "DataSource \<Rightarrow> bool"

text \<open>
  The members of the channel object. \<open>readyFifo\<close> is the array
  getReadyFifoUser()->entries, which the card writes and the driver reads and resets.
  \<open>crorc\<close> lists the commands the card has accepted, oldest first, and
  \<open>cardRaises\<close> is the state of the card as the driver meets it: \<open>cardRaises s log cmd\<close>
  holds when the card, having accepted the commands \<open>log\<close>, raises on \<open>cmd\<close>.
\<close>

record CrorcDmaChannel =
  mPageSize :: nat
  mSTBRD :: bool
  mRDYRX :: bool
  mUseFeeAddress :: bool
  mGeneratorEnabled :: bool
  mDataSource :: DataSource
  mFreeFifoFront :: nat
  mFreeFifoBack :: nat
  mFreeFifoSize :: nat
  mReadyQueue :: "Superpage list"
  mTransferQueue :: "Superpage list"
  mPendingDmaStart :: bool
  readyFifo :: "ReadyFifoEntry list"
  crorc :: "CrorcCommand list"
  cardRaises :: "CrorcCommand list \<Rightarrow> CrorcCommand \<Rightarrow> bool"

record Parameters =
  getDmaPageSize :: "nat option"
  getStbrdEnabled :: "bool option"
  getDataSource :: "DataSource option"
  scatterGatherEntrySize :: nat

subsection \<open>The queues\<close>

text \<open>
  Modelled from the spec: the two queues are declared in the missing header. The spec
  bounds them by TRANSFER_QUEUE_CAPACITY and READY_QUEUE_CAPACITY and has their storage
  preallocated, and the source includes boost/circular_buffer.hpp: they are circular
  buffers of fixed capacity. push_back on a full buffer overwrites the oldest element,
  and does nothing when the capacity is 0.
\<close>

definition push_back :: "nat \<Rightarrow> 'a list \<Rightarrow> 'a \<Rightarrow> 'a list" where
  "push_back capacity q x =
    (if capacity \<le> length q
     then (if capacity = 0 then q else tl q @ [x])
     else q @ [x])"

subsection \<open>Commands to the card\<close>

text \<open>
  The commands are sent one after the other; the first one the card raises on ends the
  sequence with its exception.
\<close>

fun send :: "CrorcCommand list \<Rightarrow> CrorcDmaChannel \<Rightarrow> error option \<times> CrorcDmaChannel" where
  "send [] s = (None, s)"
| "send (cmd # cmds) s =
    (if cardRaises s (crorc s) cmd then (Some (CardException cmd), s)
     else send cmds (s\<lparr>crorc := crorc s @ [cmd]\<rparr>))"

text \<open>Sequencing: what follows a call runs only when the call has not raised.\<close>

definition andThen ::
    "error option \<times> CrorcDmaChannel \<Rightarrow> (CrorcDmaChannel \<Rightarrow> error option \<times> CrorcDmaChannel)
      \<Rightarrow> error option \<times> CrorcDmaChannel" where
  "andThen r f = (case r of (Some e, s) \<Rightarrow> (Some e, s) | (None, s) \<Rightarrow> f s)"

subsection \<open>Construction and start\<close>

text \<open>
  deviceResetChannel at level Internal, the level the constructor uses: the DIU version
  is read and one reset command is sent.
\<close>

definition deviceResetChannelInternal ::
    "CrorcDmaChannel \<Rightarrow> error option \<times> CrorcDmaChannel" where
  "deviceResetChannelInternal s =
     send [InitDiuVersion, ResetCommand [RORC, FF, FIFOS, ERROR, COUNTERS]] s"

text \<open>
  The constructor. \<open>hdr\<close> holds the members as the initialisers of the missing header
  leave them; the constructor overwrites the ones it sets.
\<close>

definition CrorcDmaChannel_new ::
    "Constants \<Rightarrow> Parameters \<Rightarrow> CrorcDmaChannel \<Rightarrow> error + CrorcDmaChannel" where
  "CrorcDmaChannel_new c p hdr =
    (let pageSize = (case getDmaPageSize p of None \<Rightarrow> DMA_PAGE_SIZE c | Some v \<Rightarrow> v);
         stbrd = (case getStbrdEnabled p of None \<Rightarrow> False | Some v \<Rightarrow> v);
         source = (case getDataSource p of None \<Rightarrow> Internal | Some v \<Rightarrow> v)
     in if pageSize \<noteq> DMA_PAGE_SIZE c
        then Inl (CrorcException ''CRORC only supports 8KiB DMA page size'')
        else if source = Ddg
        then Inl (CruException ''CRORC does not support specified data source'')
        else
          let generator = (if source = Fee then False else True);
              rdyrx = (if \<not> generator then (if stbrd then False else True) else mRDYRX hdr)
          in if scatterGatherEntrySize p < FIFO_SIZE c
             then Inl (Exception ''Scatter gather list entry for internal FIFO was too small'')
             else
               (case deviceResetChannelInternal
                  (hdr\<lparr>mPageSize := pageSize, mSTBRD := stbrd, mRDYRX := rdyrx,
                       mUseFeeAddress := False, mGeneratorEnabled := generator,
                       mDataSource := source,
                       readyFifo := replicate (MAX_SUPERPAGE_DESCRIPTORS c) reset_entry\<rparr>) of
                  (Some e, _) \<Rightarrow> Inl e
                | (None, s) \<Rightarrow> Inr s))"

text \<open>
  armDdl: the commands depend on the reset level and on the data source; what the card
  raises on any of them is caught (the card's exceptions are taken to derive from
  Exception), annotated with both, and raised again.
\<close>

definition armDdl ::
    "Constants \<Rightarrow> ResetLevel \<Rightarrow> CrorcDmaChannel \<Rightarrow> error option \<times> CrorcDmaChannel" where
  "armDdl c resetLevel s =
    (if resetLevel = Nothing then (None, s)
     else
       let siuAndFee = (resetLevel = InternalDiuSiu \<and> mDataSource s \<noteq> Diu);
           cmds =
             [ResetCommand [RORC]]
             @ (if isExternal c (mDataSource s) \<and> resetLevel \<noteq> ResetInternal
                then [ArmDdl DIU]
                     @ (if siuAndFee then [ArmDdl SIU, ArmDdl DIU] else [])
                     @ [ArmDdl RORC]
                     @ (if siuAndFee then [AssertLinkUp, SiuCommandRandCIFST] else [])
                     @ [DiuCommandRandCIFST]
                else [])
             @ [ResetCommand [FF], AssertFreeFifoEmpty]
       in case send cmds s of
            (Some e, s1) \<Rightarrow> (Some (Annotated e resetLevel (mDataSource s)), s1)
          | (None, s1) \<Rightarrow> (None, s1))"

definition startDataReceiving :: "CrorcDmaChannel \<Rightarrow> error option \<times> CrorcDmaChannel" where
  "startDataReceiving s = send [StartDataReceiver] s"

text \<open>
  deviceStartDma: the card is armed at the level the data source selects and set to
  receive, then the free-FIFO indices and both queues are cleared and the start of the
  DMA is left pending.
\<close>

definition deviceStartDma ::
    "Constants \<Rightarrow> CrorcDmaChannel \<Rightarrow> error option \<times> CrorcDmaChannel" where
  "deviceStartDma c s =
    andThen (send [InitDiuVersion] s) (\<lambda>s1.
    andThen (if mDataSource s1 = Siu \<or> mDataSource s1 = Fee then armDdl c InternalDiuSiu s1
             else if mDataSource s1 = Diu then armDdl c InternalDiu s1
             else armDdl c ResetInternal s1) (\<lambda>s2.
    andThen (startDataReceiving s2) (\<lambda>s3.
      (None,
       s3\<lparr>mFreeFifoFront := 0, mFreeFifoBack := 0, mFreeFifoSize := 0,
          mReadyQueue := [], mTransferQueue := [], mPendingDmaStart := True\<rparr>))))"

definition startDataGenerator :: "CrorcDmaChannel \<Rightarrow> error option \<times> CrorcDmaChannel" where
  "startDataGenerator s =
    send ([ArmDataGenerator (mPageSize s)]
          @ (if mDataSource s = Internal then [SetLoopbackOn] else [])
          @ (if mDataSource s = Siu
             then [SetSiuLoopback, AssertLinkUp, SiuCommandRandCIFST, DiuCommandRandCIFST]
             else [])
          @ (if mDataSource s = Diu then [SetDiuLoopback, DiuCommandRandCIFST] else [])
          @ [StartDataGenerator]) s"

definition startPendingDma :: "CrorcDmaChannel \<Rightarrow> error option \<times> CrorcDmaChannel" where
  "startPendingDma s =
    (if \<not> mPendingDmaStart s then (None, s)
     else if mTransferQueue s = [] then (None, s)
     else
       andThen
         (if mGeneratorEnabled s then startDataGenerator s
          else if mRDYRX s \<or> mSTBRD s
          then send [AssertLinkUp, SiuCommandRandCIFST, DiuCommandRandCIFST,
                     StartTrigger (if mRDYRX s then RDYRX else STBRD)] s
          else (None, s))
         (\<lambda>s1. (None, s1\<lparr>mPendingDmaStart := False\<rparr>)))"

subsection \<open>The queue operations\<close>

text \<open>
  An operation returns the exception it raised, if any, and the channel as it is when
  the operation ends: an exception does not undo what was done before it.
\<close>

definition getTransferQueueAvailable :: "Constants \<Rightarrow> CrorcDmaChannel \<Rightarrow> int" where
  "getTransferQueueAvailable c s =
     int (TRANSFER_QUEUE_CAPACITY c) - int (length (mTransferQueue s))"

definition getReadyQueueSize :: "CrorcDmaChannel \<Rightarrow> int" where
  "getReadyQueueSize s = int (length (mReadyQueue s))"

definition isTransferQueueEmpty :: "CrorcDmaChannel \<Rightarrow> bool" where
  "isTransferQueueEmpty s \<longleftrightarrow> mTransferQueue s = []"

definition isReadyQueueFull :: "Constants \<Rightarrow> CrorcDmaChannel \<Rightarrow> bool" where
  "isReadyQueueFull c s \<longleftrightarrow> length (mReadyQueue s) = READY_QUEUE_CAPACITY c"

definition getSuperpage :: "CrorcDmaChannel \<Rightarrow> error + Superpage" where
  "getSuperpage s =
    (case mReadyQueue s of
       [] \<Rightarrow> Inl (Exception ''Could not get superpage, ready queue was empty'')
     | sp # _ \<Rightarrow> Inr sp)"

text \<open>
  pushFreeFifoPage takes the page size as an int: the size of the superpage is cut to
  32 bits and read as signed, divided by 4 towards zero, and the quotient is converted to
  size_t.
\<close>

definition pushFreeFifoPage ::
    "nat \<Rightarrow> nat \<Rightarrow> nat \<Rightarrow> CrorcDmaChannel \<Rightarrow> error option \<times> CrorcDmaChannel" where
  "pushFreeFifoPage readyFifoIndex pageBusAddress superpageSize s =
    (let pageSize = sint (word_of_nat superpageSize :: 32 word);
         quotient = (if pageSize < 0 then - ((- pageSize) div 4) else pageSize div 4);
         pageWords = unat (word_of_int quotient :: 64 word)
     in send [PushRxFreeFifo pageBusAddress pageWords readyFifoIndex] s)"

definition pushSuperpage ::
    "Constants \<Rightarrow> Superpage \<Rightarrow> CrorcDmaChannel \<Rightarrow> error option \<times> CrorcDmaChannel" where
  "pushSuperpage c superpage s =
    (if \<not> checkSuperpage c superpage
     then (Some InvalidSuperpage, s)
     else if length (mTransferQueue s) \<ge> TRANSFER_QUEUE_CAPACITY c
     then (Some (Exception ''Could not push superpage, transfer queue was full''), s)
     else if mFreeFifoSize s \<ge> MAX_SUPERPAGE_DESCRIPTORS c
     then (Some (Exception
        ''Could not push superpage, firmware queue was full (this should never happen)''), s)
     else
       let busAddress = getBusOffsetAddress c (offset superpage)
       in andThen (pushFreeFifoPage (mFreeFifoFront s) busAddress (size_bytes superpage) s)
            (\<lambda>s1. (None,
               s1\<lparr>mFreeFifoSize := mFreeFifoSize s1 + 1,
                  mFreeFifoFront := (mFreeFifoFront s1 + 1) mod MAX_SUPERPAGE_DESCRIPTORS c,
                  mTransferQueue :=
                    push_back (TRANSFER_QUEUE_CAPACITY c) (mTransferQueue s1) superpage\<rparr>)))"

definition popSuperpage :: "CrorcDmaChannel \<Rightarrow> (error + Superpage) \<times> CrorcDmaChannel" where
  "popSuperpage s =
    (case mReadyQueue s of
       [] \<Rightarrow> (Inl (Exception ''Could not pop superpage, ready queue was empty''), s)
     | sp # rest \<Rightarrow> (Inr sp, s\<lparr>mReadyQueue := rest\<rparr>))"

subsection \<open>Arrival of data\<close>

definition dataArrived ::
    "Constants \<Rightarrow> CrorcDmaChannel \<Rightarrow> nat \<Rightarrow> error + DataArrivalStatus" where
  "dataArrived c s index =
    (if index \<ge> length (readyFifo s)
     then Inl (UndefinedBehaviour ''ready FIFO index out of range'')
     else
       let len = length_words (readyFifo s ! index);
           st = status (readyFifo s ! index)
       in if st = - 1 then Inr NoneArrived
          else if st = 0 then Inr PartArrived
          else if st AND 0xff = DTSW c
          then (if st AND push_bit 31 1 \<noteq> 0
                then Inl (CrorcDataArrivalException
                        ''Data arrival status word contains error bits'' st len index)
                else Inr WholeArrived)
          else Inl (CrorcDataArrivalException
                  ''Unrecognized data arrival status word'' st len index))"

text \<open>
  getLength: the entry's length times 4, computed in 32-bit int arithmetic (taken to wrap
  around) and converted to size_t, that is, sign-extended to 64 bits.
\<close>

definition getLength :: "ReadyFifoEntry \<Rightarrow> nat" where
  "getLength e = unat (scast (length_words e * 4) :: 64 word)"

text \<open>
  The while loop of fillSuperpages. In one round the length is read, the descriptor is
  reset, the indices move, and the head of the transfer queue goes to the ready queue.
\<close>

function (sequential) scan ::
    "Constants \<Rightarrow> CrorcDmaChannel \<Rightarrow> error option \<times> CrorcDmaChannel" where
  "scan c s =
    (if mFreeFifoSize s > 0 then
       (case dataArrived c s (mFreeFifoBack s) of
          Inl e \<Rightarrow> (Some e, s)
        | Inr WholeArrived \<Rightarrow>
            let superpageFilled = getLength (readyFifo s ! mFreeFifoBack s);
                s1 = s\<lparr>readyFifo := (readyFifo s)[mFreeFifoBack s := reset_entry],
                       mFreeFifoSize := mFreeFifoSize s - 1,
                       mFreeFifoBack := (mFreeFifoBack s + 1) mod MAX_SUPERPAGE_DESCRIPTORS c\<rparr>
            in (case mTransferQueue s1 of
                  [] \<Rightarrow> (Some (UndefinedBehaviour ''front() of an empty transfer queue''), s1)
                | superpage # rest \<Rightarrow>
                    scan c (s1\<lparr>mReadyQueue :=
                                  push_back (READY_QUEUE_CAPACITY c) (mReadyQueue s1)
                                    (superpage\<lparr>received := superpageFilled, ready := True\<rparr>),
                                mTransferQueue := rest\<rparr>))
        | Inr _ \<Rightarrow> (None, s))
     else (None, s))"
  by pat_completeness auto
termination
  by (relation "measure (\<lambda>(c, s). mFreeFifoSize s)") auto

definition fillSuperpages ::
    "Constants \<Rightarrow> CrorcDmaChannel \<Rightarrow> error option \<times> CrorcDmaChannel" where
  "fillSuperpages c s =
    (if mPendingDmaStart s \<and> mTransferQueue s = [] then (None, s)
     else
       andThen (if mPendingDmaStart s then startPendingDma s else (None, s))
         (\<lambda>s1. if mTransferQueue s1 \<noteq> [] then scan c s1 else (None, s1)))"

subsection \<open>The channel over time\<close>

text \<open>
  What happens to a channel: the client calls an operation, the card writes an entry of
  the ready FIFO (any entry, any content), or the card changes the commands it raises on.
  \<open>perform\<close> gives the channel after the event, whether the operation raised or not.
\<close>

datatype Operation =
    DeviceStartDma
  | PushSuperpage Superpage
  | FillSuperpages
  | GetSuperpage
  | PopSuperpage
  | CardWrite nat ReadyFifoEntry
  | CardCondition "CrorcCommand list \<Rightarrow> CrorcCommand \<Rightarrow> bool"

fun perform :: "Constants \<Rightarrow> Operation \<Rightarrow> CrorcDmaChannel \<Rightarrow> CrorcDmaChannel" where
  "perform c DeviceStartDma s = snd (deviceStartDma c s)"
| "perform c (PushSuperpage sp) s = snd (pushSuperpage c sp s)"
| "perform c FillSuperpages s = snd (fillSuperpages c s)"
| "perform c GetSuperpage s = s"
| "perform c PopSuperpage s = snd (popSuperpage s)"
| "perform c (CardWrite i e) s = s\<lparr>readyFifo := (readyFifo s)[i := e]\<rparr>"
| "perform c (CardCondition f) s = s\<lparr>cardRaises := f\<rparr>"

text \<open>
  A channel is reachable when it was constructed, started with a deviceStartDma that did
  not raise, and then went through any number of events.
\<close>

inductive reachable :: "Constants \<Rightarrow> CrorcDmaChannel \<Rightarrow> bool" for c :: Constants where
  started: "0 < MAX_SUPERPAGE_DESCRIPTORS c \<Longrightarrow> CrorcDmaChannel_new c p hdr = Inr s0
     \<Longrightarrow> deviceStartDma c s0 = (None, s) \<Longrightarrow> reachable c s"
| performed: "reachable c s \<Longrightarrow> reachable c (perform c op s)"

section \<open>The pattern checker of the DMA benchmark (ProgramDmaBench.cxx)\<close>

text \<open>
  A page is the memory at pageAddress, read as 32-bit words: \<open>page i\<close> is the word
  the code reads as page[i]. The loops count in \<open>nat\<close>; the code counts in uint32_t,
  which is the same for pages of fewer than 2^32 words. Output to the readout file
  (printToFile) is left out: it changes no member the checker reads.
\<close>

datatype CardType = Crorc | Cru | Unknown

datatype GeneratorPattern = Incremental | Alternating | Constant | Random

record ProgramDmaBench =
  mVerbose :: bool
  noErrorCheck :: bool
  noResyncCounter :: bool
  pageReset :: bool
  generatorPattern :: GeneratorPattern
  mCardType :: CardType
  mErrorCount :: int
  mDataGeneratorCounter :: int
  mErrorStream :: string

definition MAX_RECORDED_ERRORS :: int where
  "MAX_RECORDED_ERRORS = 1000"


definition digit :: "nat \<Rightarrow> char" where
  "digit d = ''0123456789abcdef'' ! d"

function decimalNat :: "nat \<Rightarrow> string" where
  "decimalNat n = (if n < 10 then [digit n] else decimalNat (n div 10) @ [digit (n mod 10)])"
  by pat_completeness auto
termination
  by (relation "measure id") auto

function hexNat :: "nat \<Rightarrow> string" where
  "hexNat n = (if n < 16 then [digit n] else hexNat (n div 16) @ [digit (n mod 16)])"
  by pat_completeness auto
termination
  by (relation "measure id") auto

definition decimal :: "int \<Rightarrow> string" where
  "decimal i = (if i < 0 then CHR ''-'' # decimalNat (nat (- i)) else decimalNat (nat i))"

definition formatError :: "int \<Rightarrow> nat \<Rightarrow> u32 \<Rightarrow> u32 \<Rightarrow> u32 \<Rightarrow> string" where
  "formatError eventNumber i counter expectedValue actualValue =
     ''event:'' @ decimal eventNumber @ '' i:'' @ decimalNat i
     @ '' cnt:'' @ decimalNat (unat counter)
     @ '' exp:0x'' @ hexNat (unat expectedValue)
     @ '' val:0x'' @ hexNat (unat actualValue) @ [CHR 0x0A]"

definition addError :: "int \<Rightarrow> nat \<Rightarrow> u32 \<Rightarrow> u32 \<Rightarrow> u32 \<Rightarrow> ProgramDmaBench \<Rightarrow> ProgramDmaBench" where
  "addError eventNumber index generatorCounter expectedValue actualValue b =
    (let b1 = b\<lparr>mErrorCount := mErrorCount b + 1\<rparr>
     in if mVerbose b1 \<and> mErrorCount b1 < MAX_RECORDED_ERRORS
        then b1\<lparr>mErrorStream := mErrorStream b1
               @ formatError eventNumber index generatorCounter expectedValue actualValue\<rparr>
        else b1)"

function checkCru ::
    "(u32 \<Rightarrow> u32) \<Rightarrow> (nat \<Rightarrow> u32) \<Rightarrow> nat \<Rightarrow> int \<Rightarrow> u32 \<Rightarrow> nat \<Rightarrow> ProgramDmaBench
      \<Rightarrow> bool \<times> ProgramDmaBench" where
  "checkCru patternFunction page pageSize32 eventNumber counter i b =
    (if i < pageSize32 then
       (let expectedValue = patternFunction (word_of_nat i);
            actualValue = page i
        in if actualValue \<noteq> expectedValue
           then
             (let b1 = b\<lparr>mErrorCount := mErrorCount b + 1\<rparr>
              in (True,
                  if mVerbose b1 \<and> mErrorCount b1 < MAX_RECORDED_ERRORS
                  then b1\<lparr>mErrorStream := mErrorStream b1
                         @ formatError eventNumber i counter expectedValue actualValue\<rparr>
                  else b1))
           else checkCru patternFunction page pageSize32 eventNumber counter (i + 8) b)
     else (False, b))"
  by pat_completeness auto
termination
  by (relation "measure (\<lambda>(f, p, n, e, c, i, b). n - i)") auto

definition checkErrorsCru ::
    "(nat \<Rightarrow> u32) \<Rightarrow> nat \<Rightarrow> int \<Rightarrow> u32 \<Rightarrow> ProgramDmaBench \<Rightarrow> error + bool \<times> ProgramDmaBench" where
  "checkErrorsCru page pageSize eventNumber counter b =
    (let check = (\<lambda>patternFunction.
           checkCru patternFunction page (pageSize div 4) eventNumber counter 0 b)
     in case generatorPattern b of
          Incremental \<Rightarrow> Inr (check (\<lambda>i. counter * 256 + i div 8))
        | Alternating \<Rightarrow> Inr (check (\<lambda>_. 0xa5a5a5a5))
        | Constant \<Rightarrow> Inr (check (\<lambda>_. 0x12345678))
        | _ \<Rightarrow> Inl (Exception ''Unsupported pattern for CRU error checking''))"

function checkCrorc ::
    "(u32 \<Rightarrow> u32) \<Rightarrow> (nat \<Rightarrow> u32) \<Rightarrow> nat \<Rightarrow> int \<Rightarrow> u32 \<Rightarrow> nat \<Rightarrow> ProgramDmaBench
      \<Rightarrow> bool \<times> ProgramDmaBench" where
  "checkCrorc patternFunction page pageSize32 eventNumber counter i b =
    (if i < pageSize32 then
       (let expectedValue = patternFunction (word_of_nat i);
            actualValue = page i
        in if actualValue \<noteq> expectedValue
           then (True, addError eventNumber i counter expectedValue actualValue b)
           else checkCrorc patternFunction page pageSize32 eventNumber counter (i + 1) b)
     else (False, b))"
  by pat_completeness auto
termination
  by (relation "measure (\<lambda>(f, p, n, e, c, i, b). n - i)") auto

definition checkErrorsCrorc ::
    "(nat \<Rightarrow> u32) \<Rightarrow> nat \<Rightarrow> int \<Rightarrow> u32 \<Rightarrow> ProgramDmaBench \<Rightarrow> error + bool \<times> ProgramDmaBench" where
  "checkErrorsCrorc page pageSize eventNumber counter b =
    (let check = (\<lambda>patternFunction.
           let b1 = (if page 0 \<noteq> counter
                     then addError eventNumber 0 counter counter (page 0) b else b)
           in checkCrorc patternFunction page (pageSize div 4) eventNumber counter 8 b1)
     in case generatorPattern b of
          Incremental \<Rightarrow> Inr (check (\<lambda>i. i - 1))
        | Alternating \<Rightarrow> Inr (check (\<lambda>_. 0xa5a5a5a5))
        | Constant \<Rightarrow> Inr (check (\<lambda>_. 0x12345678))
        | _ \<Rightarrow> Inl (Exception ''Unsupported pattern for C-RORC error checking''))"

definition checkErrors ::
    "(nat \<Rightarrow> u32) \<Rightarrow> nat \<Rightarrow> int \<Rightarrow> u32 \<Rightarrow> ProgramDmaBench \<Rightarrow> error + bool \<times> ProgramDmaBench" where
  "checkErrors page pageSize eventNumber counter b =
    (case mCardType b of
       Crorc \<Rightarrow> checkErrorsCrorc page pageSize eventNumber counter b
     | Cru \<Rightarrow> checkErrorsCru page pageSize eventNumber counter b
     | _ \<Rightarrow> Inl (RuntimeError ''Error checking unsupported for this card type''))"






definition outputErrors :: "ProgramDmaBench \<Rightarrow> string" where
  "outputErrors b = mErrorStream b"

section \<open>Notions used in the statements\<close>

text \<open>
  What holds on every reachable channel: the transfer queue is as long as the free FIFO
  is filled, the indices stay inside the ring, front is back plus size around the ring,
  the ready FIFO has MAX_SUPERPAGE_DESCRIPTORS entries, the ready queue stays within its
  capacity, and a channel without generator has one of the two trigger modes.
\<close>
definition invar :: "Constants \<Rightarrow> CrorcDmaChannel \<Rightarrow> bool" where
  "invar c s \<longleftrightarrow>
     length (mTransferQueue s) = mFreeFifoSize s
   \<and> mFreeFifoSize s \<le> MAX_SUPERPAGE_DESCRIPTORS c
   \<and> mFreeFifoBack s < MAX_SUPERPAGE_DESCRIPTORS c
   \<and> mFreeFifoFront s = (mFreeFifoBack s + mFreeFifoSize s) mod MAX_SUPERPAGE_DESCRIPTORS c
   \<and> length (readyFifo s) = MAX_SUPERPAGE_DESCRIPTORS c
   \<and> length (mReadyQueue s) \<le> READY_QUEUE_CAPACITY c
   \<and> (\<not> mGeneratorEnabled s \<longrightarrow> mRDYRX s \<or> mSTBRD s)"

text \<open>
  The card accepts all the commands of a list, sent one after the other.
\<close>
fun accepted :: "CrorcDmaChannel \<Rightarrow> CrorcCommand list \<Rightarrow> bool" where
  "accepted s [] = True"
| "accepted s (cmd # cmds) =
    (\<not> cardRaises s (crorc s) cmd \<and> accepted (s\<lparr>crorc := crorc s @ [cmd]\<rparr>) cmds)"

text \<open>
  The commands that start a pending DMA: those of the data generator when it is enabled,
  else those of the trigger.
\<close>
definition pendingDmaCommands :: "CrorcDmaChannel \<Rightarrow> CrorcCommand list" where
  "pendingDmaCommands s =
    (if mGeneratorEnabled s
     then [ArmDataGenerator (mPageSize s)]
          @ (if mDataSource s = Internal then [SetLoopbackOn] else [])
          @ (if mDataSource s = Siu
             then [SetSiuLoopback, AssertLinkUp, SiuCommandRandCIFST, DiuCommandRandCIFST]
             else [])
          @ (if mDataSource s = Diu then [SetDiuLoopback, DiuCommandRandCIFST] else [])
          @ [StartDataGenerator]
     else if mRDYRX s \<or> mSTBRD s
     then [AssertLinkUp, SiuCommandRandCIFST, DiuCommandRandCIFST,
           StartTrigger (if mRDYRX s then RDYRX else STBRD)]
     else [])"

text \<open>
  The channel once a pending DMA has been started: the card has accepted the commands and
  the start is no longer pending. A channel with nothing pending, or with an empty
  transfer queue, is left as it is.
\<close>
definition startedDma :: "CrorcDmaChannel \<Rightarrow> CrorcDmaChannel" where
  "startedDma s =
    (if mPendingDmaStart s \<and> mTransferQueue s \<noteq> []
     then s\<lparr>crorc := crorc s @ pendingDmaCommands s, mPendingDmaStart := False\<rparr>
     else s)"

text \<open>
  One completion, the round of the loop written out as one update: the descriptor at the
  back is reset, the size drops by one, back advances modulo MAX_SUPERPAGE_DESCRIPTORS,
  and the head of the transfer queue leaves it and is pushed, with received set to
  getLength of the descriptor and marked ready, to the back of the ready queue.
\<close>
definition completeBack :: "Constants \<Rightarrow> CrorcDmaChannel \<Rightarrow> CrorcDmaChannel" where
  "completeBack c s =
     s\<lparr>readyFifo := (readyFifo s)[mFreeFifoBack s := reset_entry],
       mFreeFifoSize := mFreeFifoSize s - 1,
       mFreeFifoBack := (mFreeFifoBack s + 1) mod MAX_SUPERPAGE_DESCRIPTORS c,
       mReadyQueue := push_back (READY_QUEUE_CAPACITY c) (mReadyQueue s)
         ((hd (mTransferQueue s))
              \<lparr>received := getLength (readyFifo s ! mFreeFifoBack s), ready := True\<rparr>),
       mTransferQueue := tl (mTransferQueue s)\<rparr>"

text \<open>
  The status words that do not make dataArrived raise: -1, 0, and a word with low byte
  DTSW whose bit 31 is clear.
\<close>
definition recognised :: "Constants \<Rightarrow> i32 \<Rightarrow> bool" where
  "recognised c st \<longleftrightarrow>
     st = - 1 \<or> st = 0 \<or> (st AND 0xff = DTSW c \<and> st AND push_bit 31 1 = 0)"

text \<open>The entries that dataArrived reports as wholly arrived.\<close>
definition wholeArrived :: "Constants \<Rightarrow> ReadyFifoEntry \<Rightarrow> bool" where
  "wholeArrived c e \<longleftrightarrow>
     status e \<noteq> - 1 \<and> status e \<noteq> 0 \<and> status e AND 0xff = DTSW c
     \<and> status e AND push_bit 31 1 = 0"

text \<open>A sequence of events, performed from left to right.\<close>
definition run :: "Constants \<Rightarrow> Operation list \<Rightarrow> CrorcDmaChannel \<Rightarrow> CrorcDmaChannel" where
  "run c ops s = foldl (\<lambda>s op. perform c op s) s ops"

text \<open>
  A concrete channel for the examples. The constants are not in the sources: the examples
  take 128 descriptors (the number the spec gives as an instance), queues of the same
  capacity, the status byte DTSW = 0x82, and every data source but the internal one as
  external. The parameters are the defaults (internal data source, generator on).
  \<open>exampleHeader\<close> is the object before the constructor runs, on a card that raises on
  no command, \<open>exampleConstructed\<close> the object the constructor returns.
\<close>
definition exampleConstants :: Constants where
  "exampleConstants =
    \<lparr>MAX_SUPERPAGE_DESCRIPTORS = 128, TRANSFER_QUEUE_CAPACITY = 128,
     READY_QUEUE_CAPACITY = 128, DMA_PAGE_SIZE = 8192, FIFO_SIZE = 1024, DTSW = 0x82,
     checkSuperpage = (\<lambda>sp. size_bytes sp \<noteq> 0),
     getBusOffsetAddress = (\<lambda>a. a),
     isExternal = (\<lambda>source. source \<noteq> Internal)\<rparr>"

definition exampleParameters :: Parameters where
  "exampleParameters =
    \<lparr>getDmaPageSize = None, getStbrdEnabled = None, getDataSource = None,
     scatterGatherEntrySize = 1024\<rparr>"

definition exampleHeader :: CrorcDmaChannel where
  "exampleHeader =
    \<lparr>mPageSize = 0, mSTBRD = False, mRDYRX = False, mUseFeeAddress = False,
     mGeneratorEnabled = False, mDataSource = Internal,
     mFreeFifoFront = 0, mFreeFifoBack = 0, mFreeFifoSize = 0,
     mReadyQueue = [], mTransferQueue = [], mPendingDmaStart = False,
     readyFifo = [], crorc = [], cardRaises = (\<lambda>log cmd. False)\<rparr>"

definition exampleConstructed :: CrorcDmaChannel where
  "exampleConstructed =
    \<lparr>mPageSize = 8192, mSTBRD = False, mRDYRX = False, mUseFeeAddress = False,
     mGeneratorEnabled = True, mDataSource = Internal,
     mFreeFifoFront = 0, mFreeFifoBack = 0, mFreeFifoSize = 0,
     mReadyQueue = [], mTransferQueue = [], mPendingDmaStart = False,
     readyFifo = replicate 128 reset_entry,
     crorc = [InitDiuVersion, ResetCommand [RORC, FF, FIFOS, ERROR, COUNTERS]],
     cardRaises = (\<lambda>log cmd. False)\<rparr>"

definition exampleSuperpage :: Superpage where
  "exampleSuperpage = \<lparr>offset = 0, size_bytes = 8192, received = 0, ready = False, userData = 0\<rparr>"

text \<open>The example channel after deviceStartDma.\<close>
definition exampleStarted :: CrorcDmaChannel where
  "exampleStarted = snd (deviceStartDma exampleConstants exampleConstructed)"

text \<open>
  One superpage of 8 KiB was pushed and the card has written its descriptor: 2048 words,
  status DTSW.
\<close>
definition exampleArrived :: CrorcDmaChannel where
  "exampleArrived =
     run exampleConstants
       [PushSuperpage exampleSuperpage,
        CardWrite 0 \<lparr>length_words = 2048, status = 0x82\<rparr>] exampleStarted"

text \<open>One superpage was pushed; the start of the DMA is still pending.\<close>
definition examplePushed :: CrorcDmaChannel where
  "examplePushed = run exampleConstants [PushSuperpage exampleSuperpage] exampleStarted"

text \<open>
  The DMA runs with one superpage in flight, and the card has written its descriptor with
  the error bit set.
\<close>
definition exampleErrorBit :: CrorcDmaChannel where
  "exampleErrorBit =
     run exampleConstants
       [PushSuperpage exampleSuperpage, FillSuperpages,
        CardWrite 0 \<lparr>length_words = 2048, status = 0x80000082\<rparr>] exampleStarted"

text \<open>128 superpages were pushed and none has arrived.\<close>
definition exampleFull :: CrorcDmaChannel where
  "exampleFull =
     run exampleConstants (replicate 128 (PushSuperpage exampleSuperpage)) exampleStarted"


text \<open>
  Two superpages of 8 KiB were pushed; the card has written both descriptors with status
  DTSW, the first with length 0 and the second with length 65536 words.
\<close>
definition exampleBadLengths :: CrorcDmaChannel where
  "exampleBadLengths =
     run exampleConstants
       [PushSuperpage exampleSuperpage, PushSuperpage exampleSuperpage,
        CardWrite 0 \<lparr>length_words = 0, status = 0x82\<rparr>,
        CardWrite 1 \<lparr>length_words = 65536, status = 0x82\<rparr>] exampleStarted"





text \<open>
  A channel that reads from the front-end electronics: no generator, trigger RDYRX.
  \<open>feeLinkDown\<close> is that channel after deviceStartDma, one push and one descriptor
  written by the card, when the link has gone down: the card raises on assertLinkUp.
\<close>
definition feeParameters :: Parameters where
  "feeParameters =
    \<lparr>getDmaPageSize = None, getStbrdEnabled = None, getDataSource = Some Fee,
     scatterGatherEntrySize = 1024\<rparr>"

definition feeConstructed :: CrorcDmaChannel where
  "feeConstructed =
    \<lparr>mPageSize = 8192, mSTBRD = False, mRDYRX = True, mUseFeeAddress = False,
     mGeneratorEnabled = False, mDataSource = Fee,
     mFreeFifoFront = 0, mFreeFifoBack = 0, mFreeFifoSize = 0,
     mReadyQueue = [], mTransferQueue = [], mPendingDmaStart = False,
     readyFifo = replicate 128 reset_entry,
     crorc = [InitDiuVersion, ResetCommand [RORC, FF, FIFOS, ERROR, COUNTERS]],
     cardRaises = (\<lambda>log cmd. False)\<rparr>"

definition feeStarted :: CrorcDmaChannel where
  "feeStarted = snd (deviceStartDma exampleConstants feeConstructed)"

definition feeLinkDown :: CrorcDmaChannel where
  "feeLinkDown =
     run exampleConstants
       [PushSuperpage exampleSuperpage,
        CardWrite 0 \<lparr>length_words = 2048, status = 0x82\<rparr>,
        CardCondition (\<lambda>log cmd. cmd = AssertLinkUp)] feeStarted"

text \<open>
  One superpage of 8 KiB was pushed and the card has written its descriptor with status
  DTSW: with length 0 in \<open>exampleZeroLength\<close>, with length 65536 words in
  \<open>exampleTooLong\<close>.
\<close>
definition exampleZeroLength :: CrorcDmaChannel where
  "exampleZeroLength =
     run exampleConstants
       [PushSuperpage exampleSuperpage,
        CardWrite 0 \<lparr>length_words = 0, status = 0x82\<rparr>] exampleStarted"

definition exampleTooLong :: CrorcDmaChannel where
  "exampleTooLong =
     run exampleConstants
       [PushSuperpage exampleSuperpage,
        CardWrite 0 \<lparr>length_words = 65536, status = 0x82\<rparr>] exampleStarted"

text \<open>
  A discrepancy: event number, word index, counter, expected value, actual value.
\<close>
type_synonym discrepancy = "int \<times> nat \<times> u32 \<times> u32 \<times> u32"

text \<open>
  The line of a discrepancy as the spec gives it: \<open>event:N i:I cnt:C exp:0xE val:0xV\<close>,
  with N, I and C in decimal, E and V in hexadecimal, and a newline at the end.
\<close>
definition errorLine :: "discrepancy \<Rightarrow> string" where
  "errorLine d = (case d of (N, I, C, E, V) \<Rightarrow>
     ''event:'' @ decimal N @ '' i:'' @ decimalNat I @ '' cnt:'' @ decimalNat (unat C)
     @ '' exp:0x'' @ hexNat (unat E) @ '' val:0x'' @ hexNat (unat V) @ [CHR 0x0A])"

text \<open>The discrepancies of a run, reported to addError one after the other.\<close>
definition recordError :: "ProgramDmaBench \<Rightarrow> discrepancy \<Rightarrow> ProgramDmaBench" where
  "recordError b d = (case d of (eventNumber, i, counter, expectedValue, actualValue) \<Rightarrow>
     addError eventNumber i counter expectedValue actualValue b)"

definition recordErrors :: "discrepancy list \<Rightarrow> ProgramDmaBench \<Rightarrow> ProgramDmaBench" where
  "recordErrors ds b = foldl recordError b ds"


text \<open>
  A benchmark for the examples: verbose, C-RORC, incremental pattern, counter at 4, no
  error so far. \<open>exampleQuiet\<close> is a run without the verbose option, checking the
  constant pattern.
\<close>
definition exampleBench :: ProgramDmaBench where
  "exampleBench =
    \<lparr>mVerbose = True, noErrorCheck = False, noResyncCounter = False, pageReset = False,
     generatorPattern = Incremental, mCardType = Crorc, mErrorCount = 0,
     mDataGeneratorCounter = 4, mErrorStream = []\<rparr>"

definition exampleQuiet :: ProgramDmaBench where
  "exampleQuiet =
    \<lparr>mVerbose = False, noErrorCheck = False, noResyncCounter = False, pageReset = False,
     generatorPattern = Constant, mCardType = Crorc, mErrorCount = 0,
     mDataGeneratorCounter = 0, mErrorStream = []\<rparr>"


definition zeroPage :: "nat \<Rightarrow> u32" where
  "zeroPage i = 0"

section \<open>Properties of the channel\<close>

lemma andThen_simps [simp]:
  "andThen (None, s) f = f s"
  "andThen (Some e, s) f = (Some e, s)"
  by (simp_all add: andThen_def)

lemma send_accepted:
  "accepted s cmds \<Longrightarrow> send cmds s = (None, s\<lparr>crorc := crorc s @ cmds\<rparr>)"
  by (induction cmds arbitrary: s) simp_all

lemma send_refused:
  "\<not> accepted s cmds \<Longrightarrow> \<exists>cmd log. send cmds s = (Some (CardException cmd), s\<lparr>crorc := log\<rparr>)"
proof (induction cmds arbitrary: s)
  case Nil
  then show ?case by simp
next
  case (Cons cmd cmds)
  show ?case
  proof (cases "cardRaises s (crorc s) cmd")
    case True
    then have "send (cmd # cmds) s = (Some (CardException cmd), s\<lparr>crorc := crorc s\<rparr>)"
      by simp
    then show ?thesis by blast
  next
    case False
    with Cons.prems have "\<not> accepted (s\<lparr>crorc := crorc s @ [cmd]\<rparr>) cmds" by simp
    from Cons.IH [OF this] obtain cmd' log where
      "send cmds (s\<lparr>crorc := crorc s @ [cmd]\<rparr>) = (Some (CardException cmd'), s\<lparr>crorc := log\<rparr>)"
      by auto
    with False show ?thesis by auto
  qed
qed

lemma send_only_crorc: "\<exists>log. snd (send cmds s) = s\<lparr>crorc := log\<rparr>"
proof (cases "accepted s cmds")
  case True
  then show ?thesis using send_accepted [of s cmds] by auto
next
  case False
  then show ?thesis using send_refused [of s cmds] by (metis snd_conv)
qed

lemma send_raises:
  assumes "fst (send cmds s) = Some e"
  shows "\<exists>cmd. e = CardException cmd"
proof (cases "accepted s cmds")
  case True
  with assms show ?thesis by (simp add: send_accepted)
next
  case False
  from send_refused [OF this] assms show ?thesis by auto
qed

lemma invar_crorc [simp]: "invar c (s\<lparr>crorc := log\<rparr>) = invar c s"
  by (simp add: invar_def)

lemma invar_send: "invar c s \<Longrightarrow> invar c (snd (send cmds s))"
  using send_only_crorc [of cmds s] by auto

lemma length_push_back: "length q \<le> n \<Longrightarrow> length (push_back n q x) \<le> n"
  by (auto simp: push_back_def)

lemma push_back_append: "length q < n \<Longrightarrow> push_back n q x = q @ [x]"
  by (simp add: push_back_def)

lemma push_back_drop:
  "length q \<le> n \<Longrightarrow> push_back n q x = drop (length (q @ [x]) - n) (q @ [x])"
  by (cases q) (auto simp: push_back_def)

lemma new_props:
  assumes "CrorcDmaChannel_new c p hdr = Inr s"
  shows "length (readyFifo s) = MAX_SUPERPAGE_DESCRIPTORS c"
    and "\<not> mGeneratorEnabled s \<longrightarrow> mRDYRX s \<or> mSTBRD s"
proof -
  let ?s0 = "hdr\<lparr>mPageSize := (case getDmaPageSize p of None \<Rightarrow> DMA_PAGE_SIZE c | Some v \<Rightarrow> v),
       mSTBRD := (case getStbrdEnabled p of None \<Rightarrow> False | Some v \<Rightarrow> v),
       mRDYRX := (if \<not> (if (case getDataSource p of None \<Rightarrow> Internal | Some v \<Rightarrow> v) = Fee
                          then False else True)
                  then (if (case getStbrdEnabled p of None \<Rightarrow> False | Some v \<Rightarrow> v)
                        then False else True)
                  else mRDYRX hdr),
       mUseFeeAddress := False,
       mGeneratorEnabled := (if (case getDataSource p of None \<Rightarrow> Internal | Some v \<Rightarrow> v) = Fee
                             then False else True),
       mDataSource := (case getDataSource p of None \<Rightarrow> Internal | Some v \<Rightarrow> v),
       readyFifo := replicate (MAX_SUPERPAGE_DESCRIPTORS c) reset_entry\<rparr>"
  from assms have "s = snd (deviceResetChannelInternal ?s0)"
    by (auto simp: CrorcDmaChannel_new_def Let_def split: if_splits prod.splits option.splits)
  then obtain log where s: "s = ?s0\<lparr>crorc := log\<rparr>"
    using send_only_crorc [of "[InitDiuVersion, ResetCommand [RORC, FF, FIFOS, ERROR, COUNTERS]]" ?s0]
    by (auto simp: deviceResetChannelInternal_def)
  show "length (readyFifo s) = MAX_SUPERPAGE_DESCRIPTORS c"
    unfolding s by simp
  show "\<not> mGeneratorEnabled s \<longrightarrow> mRDYRX s \<or> mSTBRD s"
    unfolding s by simp
qed

lemma snd_annotate:
  "snd (case r of (Some e, s1) \<Rightarrow> (Some (f e), s1) | (None, s1) \<Rightarrow> (None, s1)) = snd r"
  by (cases r; cases "fst r") auto

lemma armDdl_only_crorc: "\<exists>log. snd (armDdl c level s) = s\<lparr>crorc := log\<rparr>"
proof (cases "level = Nothing")
  case True
  then have "snd (armDdl c level s) = s\<lparr>crorc := crorc s\<rparr>" by (simp add: armDdl_def)
  then show ?thesis by blast
next
  case False
  then show ?thesis
    unfolding armDdl_def Let_def by (simp only: if_False snd_annotate send_only_crorc)
qed

lemma deviceStartDma_result:
  "(\<exists>e log. deviceStartDma c s = (Some e, s\<lparr>crorc := log\<rparr>))
   \<or> (\<exists>log. deviceStartDma c s =
        (None, s\<lparr>crorc := log, mFreeFifoFront := 0, mFreeFifoBack := 0, mFreeFifoSize := 0,
                 mReadyQueue := [], mTransferQueue := [], mPendingDmaStart := True\<rparr>))"
proof -
  obtain r1 s1 where r1: "send [InitDiuVersion] s = (r1, s1)" by (cases "send [InitDiuVersion] s")
  obtain l1 where s1: "s1 = s\<lparr>crorc := l1\<rparr>"
    using send_only_crorc [of "[InitDiuVersion]" s] r1 by auto
  let ?arm = "if mDataSource s1 = Siu \<or> mDataSource s1 = Fee then armDdl c InternalDiuSiu s1
             else if mDataSource s1 = Diu then armDdl c InternalDiu s1
             else armDdl c ResetInternal s1"
  obtain r2 s2 where r2: "?arm = (r2, s2)" by (cases ?arm)
  have "\<exists>level. ?arm = armDdl c level s1" by auto
  then obtain level where "?arm = armDdl c level s1" ..
  with r2 have "s2 = snd (armDdl c level s1)" by simp
  with armDdl_only_crorc [of c level s1] s1 obtain l2 where s2: "s2 = s\<lparr>crorc := l2\<rparr>"
    by auto
  obtain r3 s3 where r3: "startDataReceiving s2 = (r3, s3)" by (cases "startDataReceiving s2")
  obtain l3 where s3: "s3 = s\<lparr>crorc := l3\<rparr>"
    using send_only_crorc [of "[StartDataReceiver]" s2] r3 s2
    by (auto simp: startDataReceiving_def)
  show ?thesis
  proof (cases r1)
    case (Some e)
    with r1 s1 have "deviceStartDma c s = (Some e, s\<lparr>crorc := l1\<rparr>)"
      by (simp add: deviceStartDma_def)
    then show ?thesis by blast
  next
    case n1: None
    show ?thesis
    proof (cases r2)
      case (Some e)
      with r1 n1 r2 s2 have "deviceStartDma c s = (Some e, s\<lparr>crorc := l2\<rparr>)"
        by (simp add: deviceStartDma_def)
      then show ?thesis by blast
    next
      case n2: None
      show ?thesis
      proof (cases r3)
        case (Some e)
        with r1 n1 r2 n2 r3 s3 have "deviceStartDma c s = (Some e, s\<lparr>crorc := l3\<rparr>)"
          by (simp add: deviceStartDma_def)
        then show ?thesis by blast
      next
        case None
        with r1 n1 r2 n2 r3 s3 have "deviceStartDma c s =
          (None, s\<lparr>crorc := l3, mFreeFifoFront := 0, mFreeFifoBack := 0, mFreeFifoSize := 0,
                   mReadyQueue := [], mTransferQueue := [], mPendingDmaStart := True\<rparr>)"
          by (simp add: deviceStartDma_def)
        then show ?thesis by blast
      qed
    qed
  qed
qed

lemma invar_started:
  assumes "0 < MAX_SUPERPAGE_DESCRIPTORS c"
    and "length (readyFifo s0) = MAX_SUPERPAGE_DESCRIPTORS c"
    and "\<not> mGeneratorEnabled s0 \<longrightarrow> mRDYRX s0 \<or> mSTBRD s0"
    and "deviceStartDma c s0 = (None, s)"
  shows "invar c s"
  using deviceStartDma_result [of c s0] assms by (auto simp: invar_def)

lemma invar_deviceStartDma:
  assumes "invar c s"
  shows "invar c (snd (deviceStartDma c s))"
proof -
  from assms have "0 < MAX_SUPERPAGE_DESCRIPTORS c" by (simp add: invar_def)
  with deviceStartDma_result [of c s] assms show ?thesis
    by (auto simp: invar_def)
qed

lemma pushFreeFifoPage_result:
  "pushFreeFifoPage i a n s = (Some e, t) \<Longrightarrow> t = s"
  "pushFreeFifoPage i a n s = (None, t) \<Longrightarrow> \<exists>log. t = s\<lparr>crorc := log\<rparr>"
  by (auto simp: pushFreeFifoPage_def Let_def split: if_splits)

lemma invar_pushSuperpage:
  assumes "invar c s"
  shows "invar c (snd (pushSuperpage c sp s))"
proof -
  let ?r = "pushFreeFifoPage (mFreeFifoFront s) (getBusOffsetAddress c (offset sp)) (size_bytes sp) s"
  obtain r t where rt: "?r = (r, t)" by (cases ?r)
  show ?thesis
  proof (cases r)
    case (Some e)
    with rt pushFreeFifoPage_result(1) have "t = s" by blast
    with rt Some assms show ?thesis by (auto simp: pushSuperpage_def Let_def)
  next
    case None
    with rt pushFreeFifoPage_result(2) obtain log where "t = s\<lparr>crorc := log\<rparr>" by blast
    with rt None assms show ?thesis
      by (auto simp: pushSuperpage_def Let_def invar_def mod_Suc_eq push_back_append)
  qed
qed

lemma invar_popSuperpage:
  assumes "invar c s"
  shows "invar c (snd (popSuperpage s))"
  using assms by (auto simp: invar_def popSuperpage_def split: list.splits)

lemma startPendingDma_send:
  assumes "mPendingDmaStart s" and "mTransferQueue s \<noteq> []"
  shows "startPendingDma s
    = andThen (send (pendingDmaCommands s) s) (\<lambda>s1. (None, s1\<lparr>mPendingDmaStart := False\<rparr>))"
  using assms
  by (simp add: startPendingDma_def startDataGenerator_def pendingDmaCommands_def)

lemma startPendingDma_accepted:
  assumes "mPendingDmaStart s \<longrightarrow> accepted s (pendingDmaCommands s)"
  shows "startPendingDma s = (None, startedDma s)"
proof (cases "mPendingDmaStart s \<and> mTransferQueue s \<noteq> []")
  case True
  with assms show ?thesis
    by (simp add: startPendingDma_send send_accepted startedDma_def)
next
  case False
  then show ?thesis by (auto simp: startPendingDma_def startedDma_def)
qed

lemma startPendingDma_refused:
  assumes "mPendingDmaStart s" and "mTransferQueue s \<noteq> []"
    and "\<not> accepted s (pendingDmaCommands s)"
  shows "\<exists>cmd log. startPendingDma s = (Some (CardException cmd), s\<lparr>crorc := log\<rparr>)"
  using send_refused [OF assms(3)] assms(1,2) by (auto simp: startPendingDma_send)

lemma invar_startedDma: "invar c s \<Longrightarrow> invar c (startedDma s)"
  by (simp add: startedDma_def invar_def)

lemma invar_cardWrite:
  assumes "invar c s"
  shows "invar c (s\<lparr>readyFifo := (readyFifo s)[i := e]\<rparr>)"
  using assms by (simp add: invar_def)

lemma invar_cardCondition:
  assumes "invar c s"
  shows "invar c (s\<lparr>cardRaises := f\<rparr>)"
  using assms by (simp add: invar_def)

lemma ring_advance:
  fixes b sz n :: nat
  assumes "0 < sz"
  shows "((b + 1) mod n + (sz - 1)) mod n = (b + sz) mod n"
proof -
  have "((b + 1) mod n + (sz - 1)) mod n = ((b + 1) + (sz - 1)) mod n"
    by (rule mod_add_left_eq)
  also have "(b + 1) + (sz - 1) = b + sz"
    using assms by simp
  finally show ?thesis .
qed

lemma four_dvd_pow: "2 \<le> n \<Longrightarrow> (4::int) dvd 2 ^ n"
proof -
  assume "2 \<le> n"
  then obtain m where "n = 2 + m" using le_Suc_ex by blast
  then show ?thesis by (simp add: power_add)
qed

lemma sint_times_4: "4 dvd sint (w * 4 :: 32 word)"
proof -
  have a: "sint (w * 4) = (uint (w * 4) + 2 ^ 31) mod 2 ^ 32 - 2 ^ 31"
    using int_word_sint [of "uint (w * 4)", where 'a = 32] by simp
  have b: "uint (w * 4) = (uint w * 4) mod 2 ^ 32"
    by (simp add: uint_word_ariths)
  have p32: "(4::int) dvd 2 ^ 32" and p31: "(4::int) dvd 2 ^ 31"
    by (rule four_dvd_pow, simp)+
  have "4 dvd (uint w * 4) mod 2 ^ 32"
    by (rule dvd_mod) (simp_all only: p32 dvd_triv_right)
  then have "4 dvd (uint w * 4) mod 2 ^ 32 + 2 ^ 31"
    using p31 by (rule dvd_add)
  then have "4 dvd ((uint w * 4) mod 2 ^ 32 + 2 ^ 31) mod 2 ^ 32"
    using p32 by (rule dvd_mod)
  then have "4 dvd ((uint w * 4) mod 2 ^ 32 + 2 ^ 31) mod 2 ^ 32 - 2 ^ 31"
    using p31 by (rule dvd_diff)
  then show ?thesis by (simp only: a b)
qed

lemma four_dvd_unat_scast:
  fixes x :: "32 word"
  assumes "4 dvd sint x"
  shows "4 dvd unat (scast x :: 64 word)"
proof -
  have "unat (scast x :: 64 word) = nat (sint x mod 2 ^ 64)"
    by (simp only: scast_eq unat_eq_nat_uint uint_word_of_int) simp
  moreover have "4 dvd sint x mod 2 ^ 64"
    using assms by (rule dvd_mod) (rule four_dvd_pow, simp)
  moreover have "0 \<le> sint x mod (2 ^ 64 :: int)" by simp
  ultimately show ?thesis
    by (metis int_dvd_int_iff int_nat_eq of_nat_numeral)
qed

lemma getLength_dvd: "4 dvd getLength e"
  unfolding getLength_def by (rule four_dvd_unat_scast) (rule sint_times_4)

lemma times_4_small:
  fixes w :: "32 word"
  assumes "unat w < 2 ^ 29"
  shows "unat (scast (w * 4) :: 64 word) = 4 * unat w"
proof -
  have un: "uint w = int (unat w)" by (rule uint_nat)
  from assms have u: "uint w < 2 ^ 29" unfolding un by (simp only: of_nat_less_numeral_power_cancel_iff)
  have nn: "0 \<le> uint w" by simp
  have m: "uint (w * 4) = uint w * 4"
  proof -
    have "uint (w * 4) = (uint w * 4) mod 2 ^ 32" by (simp add: uint_word_ariths)
    also have "\<dots> = uint w * 4" using u nn by (intro mod_pos_pos_trivial) simp_all
    finally show ?thesis .
  qed
  have s: "sint (w * 4) = uint w * 4"
  proof -
    have "sint (w * 4) = (uint (w * 4) + 2 ^ 31) mod 2 ^ 32 - 2 ^ 31"
      using int_word_sint [of "uint (w * 4)", where 'a = 32] by simp
    also have "\<dots> = (uint w * 4 + 2 ^ 31) - 2 ^ 31"
      unfolding m using u nn by (subst mod_pos_pos_trivial) simp_all
    finally show ?thesis by simp
  qed
  have "unat (scast (w * 4) :: 64 word) = nat (sint (w * 4) mod 2 ^ 64)"
    by (simp only: scast_eq unat_eq_nat_uint uint_word_of_int) simp
  also have "\<dots> = nat (uint w * 4)"
    unfolding s using u nn by (subst mod_pos_pos_trivial) simp_all
  also have "\<dots> = nat (uint w) * nat 4" using nn by (intro nat_mult_distrib)
  also have "\<dots> = 4 * unat w" by simp
  finally show ?thesis .
qed

lemma getLength_small:
  "unat (length_words e) < 2 ^ 29 \<Longrightarrow> getLength e = 4 * unat (length_words e)"
  unfolding getLength_def by (rule times_4_small)

lemma scan_cases [consumes 1, case_names empty failed waiting whole]:
  assumes inv: "invar c s"
  obtains
    "mFreeFifoSize s = 0" "scan c s = (None, s)"
  | e where "0 < mFreeFifoSize s" "dataArrived c s (mFreeFifoBack s) = Inl e"
      "scan c s = (Some e, s)"
  | "0 < mFreeFifoSize s"
      "dataArrived c s (mFreeFifoBack s) = Inr NoneArrived
       \<or> dataArrived c s (mFreeFifoBack s) = Inr PartArrived"
      "scan c s = (None, s)"
  | "0 < mFreeFifoSize s" "dataArrived c s (mFreeFifoBack s) = Inr WholeArrived"
      "mTransferQueue s \<noteq> []" "scan c s = scan c (completeBack c s)"
      "invar c (completeBack c s)"
proof (cases "0 < mFreeFifoSize s")
  case False
  then show ?thesis using that(1) by simp
next
  case pos: True
  show ?thesis
  proof (cases "dataArrived c s (mFreeFifoBack s)")
    case (Inl e)
    with pos show ?thesis using that(2) by simp
  next
    case (Inr st)
    show ?thesis
    proof (cases st)
      case WholeArrived
      from pos inv obtain sp rest where tq: "mTransferQueue s = sp # rest"
        by (cases "mTransferQueue s") (auto simp: invar_def)
      have inv2: "invar c (completeBack c s)"
        using pos inv tq
          ring_advance [OF pos, of "mFreeFifoBack s" "MAX_SUPERPAGE_DESCRIPTORS c"]
        by (auto simp: invar_def completeBack_def length_push_back)
      have "scan c s = scan c (completeBack c s)"
        apply (subst scan.simps [of c s])
        using pos Inr WholeArrived tq
        by (simp add: Let_def completeBack_def del: scan.simps)
      with pos Inr WholeArrived tq inv2 show ?thesis using that(4) by simp
    next
      case NoneArrived
      with pos Inr show ?thesis using that(3) by simp
    next
      case PartArrived
      with pos Inr show ?thesis using that(3) by simp
    qed
  qed
qed

lemma completeBack_size: "0 < mFreeFifoSize s \<Longrightarrow> mFreeFifoSize (completeBack c s) < mFreeFifoSize s"
  by (simp add: completeBack_def)

lemma invar_scan:
  assumes "invar c s"
  shows "invar c (snd (scan c s))"
  using assms
proof (induction "mFreeFifoSize s" arbitrary: s rule: less_induct)
  case less
  from less.prems show ?case
  proof (cases rule: scan_cases)
    case whole
    then show ?thesis using less.hyps [of "completeBack c s"] completeBack_size by simp
  qed (simp_all add: less.prems)
qed

lemma scan_empty:
  assumes "invar c s" and "mTransferQueue s = []"
  shows "scan c s = (None, s)"
proof -
  from assms have "mFreeFifoSize s = 0" by (simp add: invar_def)
  then show ?thesis by simp
qed

lemma startedDma_same:
  "readyFifo (startedDma s) = readyFifo s"
  "mTransferQueue (startedDma s) = mTransferQueue s"
  "mReadyQueue (startedDma s) = mReadyQueue s"
  "mFreeFifoSize (startedDma s) = mFreeFifoSize s"
  "mFreeFifoBack (startedDma s) = mFreeFifoBack s"
  "mFreeFifoFront (startedDma s) = mFreeFifoFront s"
  by (simp_all add: startedDma_def)

lemma startedDma_pending:
  "mPendingDmaStart (startedDma s) \<longleftrightarrow> mPendingDmaStart s \<and> mTransferQueue s = []"
  by (auto simp: startedDma_def)

lemma fillSuperpages_scan:
  assumes "invar c s" and "\<not> (mPendingDmaStart s \<and> mTransferQueue s = [])"
    and "mPendingDmaStart s \<longrightarrow> accepted s (pendingDmaCommands s)"
  shows "fillSuperpages c s = scan c (startedDma s)"
proof -
  have st: "(if mPendingDmaStart s then startPendingDma s else (None, s)) = (None, startedDma s)"
    using startPendingDma_accepted [OF assms(3)] by (auto simp: startedDma_def)
  have inv1: "invar c (startedDma s)" using assms(1) by (rule invar_startedDma)
  show ?thesis
  proof (cases "mTransferQueue s = []")
    case True
    then have "scan c (startedDma s) = (None, startedDma s)"
      using inv1 by (intro scan_empty) (simp_all add: startedDma_same)
    with True assms(2) show ?thesis
      unfolding fillSuperpages_def st by (simp add: startedDma_same del: scan.simps)
  next
    case False
    with assms(2) show ?thesis
      unfolding fillSuperpages_def st by (simp add: startedDma_same del: scan.simps)
  qed
qed

lemma fillSuperpages_refused:
  assumes "mPendingDmaStart s" and "mTransferQueue s \<noteq> []"
    and "\<not> accepted s (pendingDmaCommands s)"
  shows "\<exists>cmd log. fillSuperpages c s = (Some (CardException cmd), s\<lparr>crorc := log\<rparr>)"
  using startPendingDma_refused [OF assms] assms(1,2)
  by (auto simp: fillSuperpages_def)

lemma invar_fillSuperpages:
  assumes "invar c s"
  shows "invar c (snd (fillSuperpages c s))"
proof (cases "mPendingDmaStart s \<and> mTransferQueue s = []")
  case True
  with assms show ?thesis by (simp add: fillSuperpages_def)
next
  case ne: False
  show ?thesis
  proof (cases "mPendingDmaStart s \<longrightarrow> accepted s (pendingDmaCommands s)")
    case True
    with assms ne show ?thesis
      using invar_scan [OF invar_startedDma [OF assms]]
      by (simp add: fillSuperpages_scan del: scan.simps)
  next
    case False
    with ne fillSuperpages_refused [of s c] assms show ?thesis by auto
  qed
qed

lemma reachable_invar: "reachable c s \<Longrightarrow> invar c s"
proof (induction rule: reachable.induct)
  case (started p hdr s0 s)
  then show ?case using new_props invar_started by blast
next
  case (performed s op)
  then show ?case
    by (cases op)
       (simp_all add: invar_deviceStartDma invar_pushSuperpage invar_fillSuperpages
          invar_popSuperpage invar_cardWrite invar_cardCondition)
qed

lemma dataArrived_readyFifo:
  "readyFifo s = readyFifo t \<Longrightarrow> dataArrived c s i = dataArrived c t i"
  by (simp add: dataArrived_def)

lemma send_refused_at:
  "\<not> accepted s cmds \<Longrightarrow>
     \<exists>k < length cmds. send cmds s
       = (Some (CardException (cmds ! k)), s\<lparr>crorc := crorc s @ take k cmds\<rparr>)"
proof (induction cmds arbitrary: s)
  case Nil
  then show ?case by simp
next
  case (Cons cmd cmds)
  show ?case
  proof (cases "cardRaises s (crorc s) cmd")
    case True
    then have "send (cmd # cmds) s
        = (Some (CardException ((cmd # cmds) ! 0)), s\<lparr>crorc := crorc s @ take 0 (cmd # cmds)\<rparr>)"
      by simp
    then show ?thesis by blast
  next
    case False
    let ?s1 = "s\<lparr>crorc := crorc s @ [cmd]\<rparr>"
    from False Cons.prems have "\<not> accepted ?s1 cmds" by simp
    from Cons.IH [OF this] obtain k where k: "k < length cmds"
      "send cmds ?s1 = (Some (CardException (cmds ! k)), ?s1\<lparr>crorc := crorc ?s1 @ take k cmds\<rparr>)"
      by blast
    from False k(2) have "send (cmd # cmds) s
        = (Some (CardException ((cmd # cmds) ! Suc k)),
           s\<lparr>crorc := crorc s @ take (Suc k) (cmd # cmds)\<rparr>)"
      by simp
    with k(1) show ?thesis by (intro exI [of _ "Suc k"]) simp
  qed
qed

lemma start_command_last:
  assumes "k < length (pendingDmaCommands s)"
  shows "StartDataGenerator \<notin> set (take k (pendingDmaCommands s))
    \<and> StartTrigger RDYRX \<notin> set (take k (pendingDmaCommands s))
    \<and> StartTrigger STBRD \<notin> set (take k (pendingDmaCommands s))"
proof -
  have "take k (butlast (pendingDmaCommands s)) = take k (pendingDmaCommands s)"
    using assms by (rule take_butlast)
  then have "set (take k (pendingDmaCommands s)) \<subseteq> set (butlast (pendingDmaCommands s))"
    using set_take_subset [of k "butlast (pendingDmaCommands s)"] by simp
  moreover have "StartDataGenerator \<notin> set (butlast (pendingDmaCommands s))
    \<and> StartTrigger RDYRX \<notin> set (butlast (pendingDmaCommands s))
    \<and> StartTrigger STBRD \<notin> set (butlast (pendingDmaCommands s))"
    by (simp add: pendingDmaCommands_def butlast_append)
  ultimately show ?thesis by blast
qed

lemma start_command_sent:
  assumes "\<not> mGeneratorEnabled s \<longrightarrow> mRDYRX s \<or> mSTBRD s"
  shows "StartDataGenerator \<in> set (pendingDmaCommands s)
    \<or> StartTrigger RDYRX \<in> set (pendingDmaCommands s)
    \<or> StartTrigger STBRD \<in> set (pendingDmaCommands s)"
  using assms by (auto simp: pendingDmaCommands_def)

lemma fillSuperpages_refused_at:
  assumes "mPendingDmaStart s" and "mTransferQueue s \<noteq> []"
    and "\<not> accepted s (pendingDmaCommands s)"
  shows "\<exists>k < length (pendingDmaCommands s). fillSuperpages c s
    = (Some (CardException (pendingDmaCommands s ! k)),
       s\<lparr>crorc := crorc s @ take k (pendingDmaCommands s)\<rparr>)"
  using send_refused_at [OF assms(3)] assms(1,2)
  by (auto simp: fillSuperpages_def startPendingDma_send)


lemma dataArrived_Inl:
  assumes "i < length (readyFifo s)" and "dataArrived c s i = Inl e"
  shows "\<exists>m st len. e = CrorcDataArrivalException m st len i \<and> \<not> recognised c st"
  using assms
  by (auto simp: dataArrived_def Let_def recognised_def split: if_splits)

lemma dataArrived_recognised:
  assumes "i < length (readyFifo s)" and "recognised c (status (readyFifo s ! i))"
  shows "\<exists>st. dataArrived c s i = Inr st"
  using assms
  by (auto simp: dataArrived_def Let_def recognised_def)

lemma dataArrived_whole:
  assumes "i < length (readyFifo s)" and "dataArrived c s i = Inr WholeArrived"
  shows "wholeArrived c (readyFifo s ! i)"
  using assms
  by (auto simp: dataArrived_def Let_def wholeArrived_def split: if_splits)

lemma scan_fails_with:
  assumes "invar c s" and "fst (scan c s) = Some e"
  shows "\<exists>m st len i. e = CrorcDataArrivalException m st len i \<and> \<not> recognised c st"
  using assms
proof (induction "mFreeFifoSize s" arbitrary: s rule: less_induct)
  case less
  from less.prems(1) show ?case
  proof (cases rule: scan_cases)
    case empty
    with less.prems show ?thesis by simp
  next
    case (failed e')
    with less.prems have "e' = e" by simp
    moreover have "mFreeFifoBack s < length (readyFifo s)"
      using less.prems(1) by (simp add: invar_def)
    ultimately show ?thesis using failed(2) dataArrived_Inl by blast
  next
    case waiting
    with less.prems show ?thesis by simp
  next
    case whole
    then show ?thesis
      using less.hyps [of "completeBack c s"] less.prems(2) completeBack_size by simp
  qed
qed

lemma recognised_reset: "recognised c (status reset_entry)"
  by (simp add: recognised_def reset_entry_def)

lemma scan_succeeds:
  assumes "invar c s" and "\<forall>e \<in> set (readyFifo s). recognised c (status e)"
  shows "fst (scan c s) = None"
  using assms
proof (induction "mFreeFifoSize s" arbitrary: s rule: less_induct)
  case less
  from less.prems(1) show ?case
  proof (cases rule: scan_cases)
    case (failed e')
    have "mFreeFifoBack s < length (readyFifo s)"
      using less.prems(1) by (simp add: invar_def)
    then have "\<exists>st. dataArrived c s (mFreeFifoBack s) = Inr st"
      using less.prems(2) by (intro dataArrived_recognised) simp_all
    with failed show ?thesis by simp
  next
    case whole
    have "\<forall>e \<in> set (readyFifo (completeBack c s)). recognised c (status e)"
    proof
      fix e assume "e \<in> set (readyFifo (completeBack c s))"
      then have "e \<in> insert reset_entry (set (readyFifo s))"
        using set_update_subset_insert [of "readyFifo s" "mFreeFifoBack s" reset_entry]
        by (auto simp: completeBack_def)
      then show "recognised c (status e)"
        using less.prems(2) recognised_reset by auto
    qed
    then show ?thesis
      using less.hyps [of "completeBack c s"] whole completeBack_size by simp
  qed simp_all
qed

text \<open>
  Claim C2, amended. fillSuperpages on a reachable channel returns normally, or raises
  the data arrival exception for a status word that is none of -1, 0, or a word with low
  byte DTSW and bit 31 clear, or, when the start of the DMA is pending, raises what the
  card raises on a start command, and then the start is still pending. It returns
  normally whenever every status word in the ready FIFO is of these three kinds and the
  card accepts the commands of a pending start.
\<close>

theorem fillSuperpages_failures:
  assumes "reachable c s"
  shows "(fst (fillSuperpages c s) = None
          \<or> (\<exists>m st len i. fst (fillSuperpages c s) = Some (CrorcDataArrivalException m st len i)
                \<and> \<not> recognised c st)
          \<or> (\<exists>cmd. fst (fillSuperpages c s) = Some (CardException cmd)
                \<and> mPendingDmaStart s \<and> mPendingDmaStart (snd (fillSuperpages c s))))
       \<and> ((\<forall>e \<in> set (readyFifo s). recognised c (status e))
            \<and> (mPendingDmaStart s \<longrightarrow> accepted s (pendingDmaCommands s))
            \<longrightarrow> fst (fillSuperpages c s) = None)"
proof (cases "mPendingDmaStart s \<and> mTransferQueue s = []")
  case True
  then show ?thesis by (simp add: fillSuperpages_def)
next
  case ne: False
  have inv: "invar c s" using assms by (rule reachable_invar)
  show ?thesis
  proof (cases "mPendingDmaStart s \<longrightarrow> accepted s (pendingDmaCommands s)")
    case acc: True
    have inv1: "invar c (startedDma s)" using inv by (rule invar_startedDma)
    have fill: "fillSuperpages c s = scan c (startedDma s)"
      using inv ne acc by (rule fillSuperpages_scan)
    have a: "fst (scan c (startedDma s)) = None
          \<or> (\<exists>m st len i. fst (scan c (startedDma s))
                = Some (CrorcDataArrivalException m st len i) \<and> \<not> recognised c st)"
      using scan_fails_with [OF inv1] by (cases "fst (scan c (startedDma s))") auto
    have b: "(\<forall>e \<in> set (readyFifo s). recognised c (status e))
            \<longrightarrow> fst (scan c (startedDma s)) = None"
      using scan_succeeds [OF inv1] by (simp add: startedDma_same)
    from a b show ?thesis unfolding fill by blast
  next
    case False
    then have p: "mPendingDmaStart s" and r: "\<not> accepted s (pendingDmaCommands s)" by auto
    from ne p have tq: "mTransferQueue s \<noteq> []" by simp
    from fillSuperpages_refused [OF p tq r, of c] obtain cmd log where
      "fillSuperpages c s = (Some (CardException cmd), s\<lparr>crorc := log\<rparr>)" by blast
    with p r show ?thesis by simp
  qed
qed

lemma ring_difference:
  fixes b sz n :: nat
  assumes "b < n" and "sz < n"
  shows "int sz = (int ((b + sz) mod n) - int b) mod int n"
proof -
  have "(int ((b + sz) mod n) - int b) mod int n = ((int b + int sz) mod int n - int b) mod int n"
    by (simp add: zmod_int)
  also have "\<dots> = ((int b + int sz) - int b) mod int n"
    by (rule mod_diff_left_eq)
  also have "\<dots> = int sz" using assms by simp
  finally show ?thesis by simp
qed

text \<open>
  Claim C3, amended. On every reachable channel mFreeFifoSize is at most
  MAX_SUPERPAGE_DESCRIPTORS; when it is smaller, it equals
  (mFreeFifoFront - mFreeFifoBack) modulo MAX_SUPERPAGE_DESCRIPTORS, and when the ring is
  full, front and back coincide.
\<close>

theorem freeFifoSize_front_back:
  assumes "reachable c s"
  shows "mFreeFifoSize s \<le> MAX_SUPERPAGE_DESCRIPTORS c \<and>
    mFreeFifoFront s = (mFreeFifoBack s + mFreeFifoSize s) mod MAX_SUPERPAGE_DESCRIPTORS c \<and>
    (if mFreeFifoSize s = MAX_SUPERPAGE_DESCRIPTORS c
     then mFreeFifoFront s = mFreeFifoBack s
     else int (mFreeFifoSize s)
          = (int (mFreeFifoFront s) - int (mFreeFifoBack s)) mod int (MAX_SUPERPAGE_DESCRIPTORS c))"
proof -
  have inv: "invar c s" using assms by (rule reachable_invar)
  show ?thesis
  proof (cases "mFreeFifoSize s = MAX_SUPERPAGE_DESCRIPTORS c")
    case True
    with inv show ?thesis by (simp add: invar_def)
  next
    case False
    with inv have "mFreeFifoSize s < MAX_SUPERPAGE_DESCRIPTORS c" by (simp add: invar_def)
    with inv False show ?thesis
      using ring_difference [of "mFreeFifoBack s" "MAX_SUPERPAGE_DESCRIPTORS c" "mFreeFifoSize s"]
      by (simp add: invar_def)
  qed
qed

text \<open>
  Claim C4. When the transfer queue holds TRANSFER_QUEUE_CAPACITY superpages,
  pushSuperpage of a superpage that passes checkSuperpage raises the exception "transfer
  queue was full" and the channel is the one before the call, in all its members.
\<close>

theorem pushSuperpage_transfer_queue_full:
  assumes "checkSuperpage c superpage"
    and "length (mTransferQueue s) = TRANSFER_QUEUE_CAPACITY c"
  shows "pushSuperpage c superpage s
    = (Some (Exception ''Could not push superpage, transfer queue was full''), s)"
  using assms by (simp add: pushSuperpage_def)

lemma not_wholeArrived_reset: "\<not> wholeArrived c reset_entry"
  by (simp add: wholeArrived_def reset_entry_def)

lemma drop_to_capacity:
  "drop (length (drop (length ys - n) ys @ zs) - n) (drop (length ys - n) ys @ zs)
     = drop (length (ys @ zs) - n) (ys @ zs)"
proof (cases "length ys \<le> n")
  case True
  then show ?thesis by simp
next
  case False
  then have "length (drop (length ys - n) ys @ zs) - n = length zs" by simp
  moreover have "length (ys @ zs) - n = length zs + (length ys - n)" using False by simp
  moreover have "drop (length zs) (drop (length ys - n) ys @ zs)
      = drop (length zs + (length ys - n)) (ys @ zs)"
    by (simp add: drop_drop [symmetric] del: drop_drop)
  ultimately show ?thesis by (simp only:)
qed

lemma scan_delivered:
  assumes "invar c s"
  shows "\<exists>new. mReadyQueue (snd (scan c s))
        = drop (length (mReadyQueue s @ new) - READY_QUEUE_CAPACITY c) (mReadyQueue s @ new) \<and>
      (\<forall>sp \<in> set new. ready sp \<and> 4 dvd received sp
         \<and> (\<exists>e \<in> set (readyFifo s). wholeArrived c e \<and> received sp = getLength e)
         \<and> (\<exists>q \<in> set (mTransferQueue s). sp = q\<lparr>received := received sp, ready := True\<rparr>))"
  using assms
proof (induction "mFreeFifoSize s" arbitrary: s rule: less_induct)
  case less
  have cap: "length (mReadyQueue s) \<le> READY_QUEUE_CAPACITY c"
    using less.prems by (simp add: invar_def)
  have none: "scan c s = (None, s) \<or> (\<exists>e. scan c s = (Some e, s)) \<Longrightarrow> ?case"
  proof -
    assume "scan c s = (None, s) \<or> (\<exists>e. scan c s = (Some e, s))"
    then have "mReadyQueue (snd (scan c s)) = mReadyQueue s" by auto
    with cap show ?case by (intro exI [of _ "[]"]) simp
  qed
  from less.prems(1) show ?case
  proof (cases rule: scan_cases)
    case empty
    then show ?thesis using none by blast
  next
    case (failed e)
    then show ?thesis using none by blast
  next
    case waiting
    then show ?thesis using none by blast
  next
    case whole
    let ?t = "completeBack c s"
    let ?e = "readyFifo s ! mFreeFifoBack s"
    let ?sp = "(hd (mTransferQueue s))\<lparr>received := getLength ?e, ready := True\<rparr>"
    let ?n = "READY_QUEUE_CAPACITY c"
    have bk: "mFreeFifoBack s < length (readyFifo s)"
      using less.prems(1) by (simp add: invar_def)
    from less.hyps [of ?t] whole completeBack_size
    obtain new where new: "mReadyQueue (snd (scan c ?t))
          = drop (length (mReadyQueue ?t @ new) - ?n) (mReadyQueue ?t @ new)"
      and each: "\<forall>sp \<in> set new. ready sp \<and> 4 dvd received sp
         \<and> (\<exists>e \<in> set (readyFifo ?t). wholeArrived c e \<and> received sp = getLength e)
         \<and> (\<exists>q \<in> set (mTransferQueue ?t). sp = q\<lparr>received := received sp, ready := True\<rparr>)"
      by blast
    have rq: "mReadyQueue ?t = drop (length (mReadyQueue s @ [?sp]) - ?n) (mReadyQueue s @ [?sp])"
      using cap by (simp add: completeBack_def push_back_drop)
    have fifo: "set (readyFifo ?t) \<subseteq> insert reset_entry (set (readyFifo s))"
      using set_update_subset_insert [of "readyFifo s" "mFreeFifoBack s" reset_entry]
      by (simp add: completeBack_def)
    have tq: "set (mTransferQueue ?t) \<subseteq> set (mTransferQueue s)"
      using whole(3) by (auto simp: completeBack_def dest: list.set_sel(2))
    have first: "ready ?sp \<and> 4 dvd received ?sp
         \<and> (\<exists>e \<in> set (readyFifo s). wholeArrived c e \<and> received ?sp = getLength e)
         \<and> (\<exists>q \<in> set (mTransferQueue s). ?sp = q\<lparr>received := received ?sp, ready := True\<rparr>)"
      using bk whole(2,3) dataArrived_whole [OF bk whole(2)]
      by (auto simp: getLength_dvd intro!: bexI [of _ ?e] bexI [of _ "hd (mTransferQueue s)"])
    have rest: "\<forall>sp \<in> set new. ready sp \<and> 4 dvd received sp
         \<and> (\<exists>e \<in> set (readyFifo s). wholeArrived c e \<and> received sp = getLength e)
         \<and> (\<exists>q \<in> set (mTransferQueue s). sp = q\<lparr>received := received sp, ready := True\<rparr>)"
    proof
      fix sp assume sp: "sp \<in> set new"
      with each obtain e q where e: "e \<in> set (readyFifo ?t)" "wholeArrived c e"
          "received sp = getLength e"
        and q: "q \<in> set (mTransferQueue ?t)" "sp = q\<lparr>received := received sp, ready := True\<rparr>"
        and r: "ready sp" "4 dvd received sp"
        by blast
      from e fifo not_wholeArrived_reset have "e \<in> set (readyFifo s)" by auto
      moreover from q tq have "q \<in> set (mTransferQueue s)" by auto
      ultimately show "ready sp \<and> 4 dvd received sp
         \<and> (\<exists>e \<in> set (readyFifo s). wholeArrived c e \<and> received sp = getLength e)
         \<and> (\<exists>q \<in> set (mTransferQueue s). sp = q\<lparr>received := received sp, ready := True\<rparr>)"
        using e q r by blast
    qed
    have "mReadyQueue (snd (scan c s))
        = drop (length ((mReadyQueue s @ [?sp]) @ new) - ?n) ((mReadyQueue s @ [?sp]) @ new)"
      using whole(4) new unfolding rq by (simp only: drop_to_capacity)
    then have "mReadyQueue (snd (scan c s))
        = drop (length (mReadyQueue s @ (?sp # new)) - ?n) (mReadyQueue s @ (?sp # new))"
      by simp
    moreover have "\<forall>sp \<in> set (?sp # new). ready sp \<and> 4 dvd received sp
         \<and> (\<exists>e \<in> set (readyFifo s). wholeArrived c e \<and> received sp = getLength e)
         \<and> (\<exists>q \<in> set (mTransferQueue s). sp = q\<lparr>received := received sp, ready := True\<rparr>)"
      using first rest by (simp del: scan.simps)
    ultimately show ?thesis by blast
  qed
qed

text \<open>
  Claim C5, amended. After fillSuperpages on a reachable channel the ready queue holds
  the last READY_QUEUE_CAPACITY elements of the sequence made of the old ready queue and,
  after it, the superpages the call has pushed. Each of these is a superpage of the
  transfer queue with
  the ready flag set and received set to getLength of a wholly arrived descriptor of the
  ready FIFO, hence to a multiple of 4. Nothing relates received to 0 or to the size of
  the superpage: that depends on what the card wrote.
\<close>

theorem fillSuperpages_delivered:
  assumes "reachable c s"
  shows "\<exists>new. mReadyQueue (snd (fillSuperpages c s))
        = drop (length (mReadyQueue s @ new) - READY_QUEUE_CAPACITY c) (mReadyQueue s @ new) \<and>
      (\<forall>sp \<in> set new. ready sp \<and> 4 dvd received sp
         \<and> (\<exists>e \<in> set (readyFifo s). wholeArrived c e \<and> received sp = getLength e)
         \<and> (\<exists>q \<in> set (mTransferQueue s). sp = q\<lparr>received := received sp, ready := True\<rparr>))"
proof -
  have inv: "invar c s" using assms by (rule reachable_invar)
  then have cap: "length (mReadyQueue s) \<le> READY_QUEUE_CAPACITY c" by (simp add: invar_def)
  have same: "mReadyQueue (snd (fillSuperpages c s)) = mReadyQueue s \<Longrightarrow> ?thesis"
    using cap by (intro exI [of _ "[]"]) simp
  show ?thesis
  proof (cases "mPendingDmaStart s \<and> mTransferQueue s = []")
    case True
    then show ?thesis by (intro same) (simp add: fillSuperpages_def)
  next
    case ne: False
    show ?thesis
    proof (cases "mPendingDmaStart s \<longrightarrow> accepted s (pendingDmaCommands s)")
      case True
      have inv1: "invar c (startedDma s)" using inv by (rule invar_startedDma)
      have fill: "fillSuperpages c s = scan c (startedDma s)"
        using inv ne True by (rule fillSuperpages_scan)
      show ?thesis
        unfolding fill using scan_delivered [OF inv1] by (simp only: startedDma_same)
    next
      case False
      then have p: "mPendingDmaStart s" and r: "\<not> accepted s (pendingDmaCommands s)" by auto
      from ne p have tq: "mTransferQueue s \<noteq> []" by simp
      from fillSuperpages_refused [OF p tq r, of c] show ?thesis by (intro same) auto
    qed
  qed
qed

lemma scan_start_untouched:
  assumes "invar c s"
  shows "crorc (snd (scan c s)) = crorc s
       \<and> mPendingDmaStart (snd (scan c s)) = mPendingDmaStart s"
  using assms
proof (induction "mFreeFifoSize s" arbitrary: s rule: less_induct)
  case less
  from less.prems(1) show ?case
  proof (cases rule: scan_cases)
    case whole
    then show ?thesis
      using less.hyps [of "completeBack c s"] completeBack_size
      by (simp add: completeBack_def del: scan.simps)
  qed simp_all
qed

text \<open>
  Claim C6, amended. On a reachable channel whose DMA start is pending, a call of
  fillSuperpages with an empty transfer queue changes nothing at all (the start stays
  pending, no command is sent). With a non-empty transfer queue the call sends the start
  commands; when the card accepts them all, the command that starts the data generator
  or the trigger is among them and the start is no longer pending afterwards; when the
  card raises on one of them, the call ends with that exception, the start is still
  pending, and the commands accepted before it include none that starts the generator or
  the trigger.
\<close>

theorem fillSuperpages_deferred_start:
  assumes "reachable c s" and "mPendingDmaStart s"
  shows "if mTransferQueue s = [] then fillSuperpages c s = (None, s)
    else if accepted s (pendingDmaCommands s)
    then \<not> mPendingDmaStart (snd (fillSuperpages c s))
       \<and> crorc (snd (fillSuperpages c s)) = crorc s @ pendingDmaCommands s
       \<and> (StartDataGenerator \<in> set (pendingDmaCommands s)
          \<or> StartTrigger RDYRX \<in> set (pendingDmaCommands s)
          \<or> StartTrigger STBRD \<in> set (pendingDmaCommands s))
    else \<exists>k < length (pendingDmaCommands s).
          fillSuperpages c s
            = (Some (CardException (pendingDmaCommands s ! k)),
               s\<lparr>crorc := crorc s @ take k (pendingDmaCommands s)\<rparr>)
          \<and> StartDataGenerator \<notin> set (take k (pendingDmaCommands s))
          \<and> StartTrigger RDYRX \<notin> set (take k (pendingDmaCommands s))
          \<and> StartTrigger STBRD \<notin> set (take k (pendingDmaCommands s))"
proof (cases "mTransferQueue s = []")
  case True
  with assms(2) show ?thesis by (simp add: fillSuperpages_def)
next
  case ne: False
  have inv: "invar c s" using assms(1) by (rule reachable_invar)
  show ?thesis
  proof (cases "accepted s (pendingDmaCommands s)")
    case True
    have inv1: "invar c (startedDma s)" using inv by (rule invar_startedDma)
    have fill: "fillSuperpages c s = scan c (startedDma s)"
      using inv ne True by (intro fillSuperpages_scan) simp_all
    have trig: "\<not> mGeneratorEnabled s \<longrightarrow> mRDYRX s \<or> mSTBRD s"
      using inv by (simp add: invar_def)
    have "crorc (startedDma s) = crorc s @ pendingDmaCommands s"
      using assms(2) ne by (simp add: startedDma_def)
    moreover have "\<not> mPendingDmaStart (startedDma s)"
      using ne by (simp add: startedDma_pending)
    ultimately show ?thesis
      using ne True scan_start_untouched [OF inv1] start_command_sent [OF trig]
      unfolding fill by (simp del: scan.simps)
  next
    case False
    from fillSuperpages_refused_at [OF assms(2) ne False, of c] obtain k where
      k: "k < length (pendingDmaCommands s)"
      "fillSuperpages c s = (Some (CardException (pendingDmaCommands s ! k)),
               s\<lparr>crorc := crorc s @ take k (pendingDmaCommands s)\<rparr>)"
      by blast
    with start_command_last [OF k(1)] ne False show ?thesis by auto
  qed
qed

text \<open>
  Claim C9. On every reachable channel the transfer queue holds exactly mFreeFifoSize
  superpages; so, when TRANSFER_QUEUE_CAPACITY is at most MAX_SUPERPAGE_DESCRIPTORS,
  pushSuperpage never raises "firmware queue was full".
\<close>

theorem transferQueue_size_is_freeFifoSize:
  assumes "reachable c s"
  shows "length (mTransferQueue s) = mFreeFifoSize s \<and>
    (TRANSFER_QUEUE_CAPACITY c \<le> MAX_SUPERPAGE_DESCRIPTORS c \<longrightarrow>
      fst (pushSuperpage c superpage s) \<noteq> Some (Exception
        ''Could not push superpage, firmware queue was full (this should never happen)''))"
proof -
  have inv: "invar c s" using assms by (rule reachable_invar)
  then have eq: "length (mTransferQueue s) = mFreeFifoSize s" by (simp add: invar_def)
  let ?r = "pushFreeFifoPage (mFreeFifoFront s) (getBusOffsetAddress c (offset superpage))
      (size_bytes superpage) s"
  have card: "fst (andThen ?r f) \<noteq> Some (Exception m)" if "\<And>t. fst (f t) = None" for f m
  proof (cases "fst ?r")
    case None
    then have "?r = (None, snd ?r)" by (metis prod.collapse)
    then have "andThen ?r f = f (snd ?r)" by (metis andThen_simps(1))
    with that show ?thesis by simp
  next
    case (Some e)
    then have "\<exists>cmd. e = CardException cmd"
      unfolding pushFreeFifoPage_def Let_def by (rule send_raises)
    moreover from Some have "?r = (Some e, snd ?r)" by (metis prod.collapse)
    then have "andThen ?r f = (Some e, snd ?r)" by (metis andThen_simps(2))
    ultimately show ?thesis by auto
  qed
  from eq show ?thesis
    by (simp add: pushSuperpage_def Let_def card)
qed

lemma reachable_run: "reachable c s \<Longrightarrow> reachable c (run c ops s)"
  unfolding run_def
  by (induction ops arbitrary: s) (auto intro: reachable.performed)

lemma run_snoc: "run c (ops @ [op]) s = perform c op (run c ops s)"
  by (simp add: run_def)

lemma run_append: "run c (ops @ ops') s = run c ops' (run c ops s)"
  by (simp add: run_def)

lemma example_new:
  "CrorcDmaChannel_new exampleConstants exampleParameters exampleHeader = Inr exampleConstructed"
  by (simp add: CrorcDmaChannel_new_def exampleConstants_def exampleParameters_def
      exampleHeader_def exampleConstructed_def deviceResetChannelInternal_def)

lemma example_start:
  "deviceStartDma exampleConstants exampleConstructed =
    (None,
     \<lparr>mPageSize = 8192, mSTBRD = False, mRDYRX = False, mUseFeeAddress = False,
      mGeneratorEnabled = True, mDataSource = Internal,
      mFreeFifoFront = 0, mFreeFifoBack = 0, mFreeFifoSize = 0,
      mReadyQueue = [], mTransferQueue = [], mPendingDmaStart = True,
      readyFifo = replicate 128 reset_entry,
      crorc = [InitDiuVersion, ResetCommand [RORC, FF, FIFOS, ERROR, COUNTERS],
               InitDiuVersion, ResetCommand [RORC], ResetCommand [FF], AssertFreeFifoEmpty,
               StartDataReceiver],
      cardRaises = (\<lambda>log cmd. False)\<rparr>)"
  by (simp add: deviceStartDma_def armDdl_def startDataReceiving_def exampleConstructed_def
      exampleConstants_def Let_def)

lemma exampleStarted_eq:
  "exampleStarted =
     \<lparr>mPageSize = 8192, mSTBRD = False, mRDYRX = False, mUseFeeAddress = False,
      mGeneratorEnabled = True, mDataSource = Internal,
      mFreeFifoFront = 0, mFreeFifoBack = 0, mFreeFifoSize = 0,
      mReadyQueue = [], mTransferQueue = [], mPendingDmaStart = True,
      readyFifo = replicate 128 reset_entry,
      crorc = [InitDiuVersion, ResetCommand [RORC, FF, FIFOS, ERROR, COUNTERS],
               InitDiuVersion, ResetCommand [RORC], ResetCommand [FF], AssertFreeFifoEmpty,
               StartDataReceiver],
      cardRaises = (\<lambda>log cmd. False)\<rparr>"
  unfolding exampleStarted_def by (simp only: example_start snd_conv)

lemma reachable_exampleStarted: "reachable exampleConstants exampleStarted"
proof (rule reachable.started [OF _ example_new])
  show "0 < MAX_SUPERPAGE_DESCRIPTORS exampleConstants" by (simp add: exampleConstants_def)
  show "deviceStartDma exampleConstants exampleConstructed = (None, exampleStarted)"
    by (simp only: example_start exampleStarted_eq)
qed

lemma pushFreeFifoPage_8192:
  "pushFreeFifoPage i a 8192 s = send [PushRxFreeFifo a 2048 i] s"
  by (simp add: pushFreeFifoPage_def Let_def)

lemma exampleArrived_eq:
  "exampleArrived =
    \<lparr>mPageSize = 8192, mSTBRD = False, mRDYRX = False, mUseFeeAddress = False,
     mGeneratorEnabled = True, mDataSource = Internal,
     mFreeFifoFront = 1, mFreeFifoBack = 0, mFreeFifoSize = 1,
     mReadyQueue = [], mTransferQueue = [exampleSuperpage], mPendingDmaStart = True,
     readyFifo = (replicate 128 reset_entry)[0 := \<lparr>length_words = 2048, status = 0x82\<rparr>],
     crorc = [InitDiuVersion, ResetCommand [RORC, FF, FIFOS, ERROR, COUNTERS],
              InitDiuVersion, ResetCommand [RORC], ResetCommand [FF], AssertFreeFifoEmpty,
              StartDataReceiver, PushRxFreeFifo 0 2048 0],
     cardRaises = (\<lambda>log cmd. False)\<rparr>"
  by (simp add: exampleArrived_def run_def exampleStarted_eq pushSuperpage_def
      pushFreeFifoPage_8192 push_back_def exampleConstants_def exampleSuperpage_def)

lemma reachable_exampleArrived: "reachable exampleConstants exampleArrived"
  unfolding exampleArrived_def by (rule reachable_run) (rule reachable_exampleStarted)

lemma accepted_never: "cardRaises s = (\<lambda>log cmd. False) \<Longrightarrow> accepted s cmds"
  by (induction cmds arbitrary: s) simp_all


lemma replicate_update_same: "(replicate n x)[i := x] = replicate n x"
  by (induction n arbitrary: i) (auto split: nat.splits)

lemma fill_one:
  assumes inv: "invar c u" and one: "mFreeFifoSize u = 1"
    and d: "dataArrived c u (mFreeFifoBack u) = Inr WholeArrived"
    and acc: "mPendingDmaStart u \<longrightarrow> accepted u (pendingDmaCommands u)"
  shows "fillSuperpages c u = (None, completeBack c (startedDma u))"
proof -
  let ?s1 = "startedDma u"
  have tq: "\<not> (mPendingDmaStart u \<and> mTransferQueue u = [])"
    using inv one by (auto simp: invar_def)
  have fill: "fillSuperpages c u = scan c ?s1" using inv tq acc by (rule fillSuperpages_scan)
  have inv1: "invar c ?s1" using inv by (rule invar_startedDma)
  have d1: "dataArrived c ?s1 (mFreeFifoBack ?s1) = Inr WholeArrived"
    using d by (simp add: startedDma_same dataArrived_readyFifo [of ?s1 u])
  have one1: "mFreeFifoSize ?s1 = 1" using one by (simp add: startedDma_same)
  from inv1 have step: "scan c ?s1 = scan c (completeBack c ?s1)
      \<and> invar c (completeBack c ?s1)"
  proof (cases rule: scan_cases)
    case empty
    with one1 show ?thesis by (simp del: scan.simps)
  next
    case (failed e)
    with d1 show ?thesis by (simp del: scan.simps)
  next
    case waiting
    with d1 show ?thesis by (auto simp del: scan.simps)
  next
    case whole
    from whole(4,5) show ?thesis by (intro conjI)
  qed
  have z: "mFreeFifoSize (completeBack c ?s1) = 0" using one1 by (simp add: completeBack_def)
  from step have "length (mTransferQueue (completeBack c ?s1))
      = mFreeFifoSize (completeBack c ?s1)"
    by (simp add: invar_def)
  with z have "mTransferQueue (completeBack c ?s1) = []" by simp
  with step have "scan c (completeBack c ?s1) = (None, completeBack c ?s1)"
    by (intro scan_empty) simp_all
  with fill step show ?thesis by (simp only:)
qed

lemma example_push_write:
  fixes t :: CrorcDmaChannel and i :: nat and e :: ReadyFifoEntry
  assumes t: "mFreeFifoSize t = 0" "mFreeFifoFront t = i" "mFreeFifoBack t = i" "i < 128"
    "mTransferQueue t = []" "readyFifo t = replicate 128 reset_entry"
    "cardRaises t = (\<lambda>log cmd. False)"
  defines "u \<equiv> run exampleConstants [PushSuperpage exampleSuperpage, CardWrite i e] t"
  shows "mFreeFifoSize u = 1" "mFreeFifoFront u = Suc i mod 128" "mFreeFifoBack u = i"
    "mTransferQueue u = [exampleSuperpage]" "mReadyQueue u = mReadyQueue t"
    "readyFifo u = (replicate 128 reset_entry)[i := e]"
    "cardRaises u = (\<lambda>log cmd. False)"
  unfolding u_def using t
  by (simp_all add: run_def pushSuperpage_def pushFreeFifoPage_8192 push_back_def
      exampleConstants_def exampleSuperpage_def)

lemma example_arrival:
  assumes "readyFifo u = (replicate 128 reset_entry)[i := \<lparr>length_words = len, status = 0x82\<rparr>]"
    and "mFreeFifoBack u = i" and "i < 128"
  shows "dataArrived exampleConstants u (mFreeFifoBack u) = Inr WholeArrived"
  using assms by (simp add: dataArrived_def exampleConstants_def)

lemma example_round:
  fixes t :: CrorcDmaChannel and i :: nat and len :: i32
  assumes r: "reachable exampleConstants t"
    and t: "mFreeFifoSize t = 0" "mFreeFifoFront t = i" "mFreeFifoBack t = i" "i < 128"
    "mTransferQueue t = []" "readyFifo t = replicate 128 reset_entry"
    "cardRaises t = (\<lambda>log cmd. False)"
  defines "u \<equiv> run exampleConstants
      [PushSuperpage exampleSuperpage, CardWrite i \<lparr>length_words = len, status = 0x82\<rparr>] t"
  defines "w \<equiv> snd (fillSuperpages exampleConstants u)"
  shows "reachable exampleConstants u" "mFreeFifoSize u = 1"
    "dataArrived exampleConstants u (mFreeFifoBack u) = Inr WholeArrived"
    "mReadyQueue u = mReadyQueue t"
    "reachable exampleConstants w" "mFreeFifoSize w = 0" "mFreeFifoFront w = Suc i mod 128"
    "mFreeFifoBack w = Suc i mod 128" "mTransferQueue w = []"
    "readyFifo w = replicate 128 reset_entry" "cardRaises w = (\<lambda>log cmd. False)"
    "mReadyQueue w = push_back 128 (mReadyQueue t)
       (exampleSuperpage
          \<lparr>received := getLength \<lparr>length_words = len, status = 0x82\<rparr>, ready := True\<rparr>)"
proof -
  note u = example_push_write [OF t, where e = "\<lparr>length_words = len, status = 0x82\<rparr>",
      folded u_def]
  have ru: "reachable exampleConstants u" unfolding u_def using r by (rule reachable_run)
  then have inv: "invar exampleConstants u" by (rule reachable_invar)
  have d: "dataArrived exampleConstants u (mFreeFifoBack u) = Inr WholeArrived"
    using u(6) u(3) t(4) by (rule example_arrival)
  have acc: "mPendingDmaStart u \<longrightarrow> accepted u (pendingDmaCommands u)"
    using accepted_never [OF u(7)] by simp
  have fill: "fillSuperpages exampleConstants u
      = (None, completeBack exampleConstants (startedDma u))"
    using inv u(1) d acc by (rule fill_one)
  then have w: "w = completeBack exampleConstants (startedDma u)" by (simp add: w_def)
  show "reachable exampleConstants u" by (rule ru)
  show "mFreeFifoSize u = 1" by (rule u(1))
  show "dataArrived exampleConstants u (mFreeFifoBack u) = Inr WholeArrived" by (rule d)
  show "mReadyQueue u = mReadyQueue t" by (rule u(5))
  have "w = perform exampleConstants FillSuperpages u" by (simp add: w_def)
  with ru show "reachable exampleConstants w" by (simp only: reachable.performed)
  show "mFreeFifoSize w = 0" "mFreeFifoFront w = Suc i mod 128"
    "mFreeFifoBack w = Suc i mod 128" "mTransferQueue w = []"
    "readyFifo w = replicate 128 reset_entry"
    "mReadyQueue w = push_back 128 (mReadyQueue t)
       (exampleSuperpage
          \<lparr>received := getLength \<lparr>length_words = len, status = 0x82\<rparr>, ready := True\<rparr>)"
    unfolding w using u t(4)
    by (simp_all add: completeBack_def startedDma_same replicate_update_same
        exampleConstants_def)
  show "cardRaises w = (\<lambda>log cmd. False)"
    unfolding w using u(7) by (simp add: completeBack_def startedDma_def)
qed


lemma exampleStarted_fields:
  "mFreeFifoSize exampleStarted = 0" "mFreeFifoFront exampleStarted = 0"
  "mFreeFifoBack exampleStarted = 0" "(0::nat) < 128" "mTransferQueue exampleStarted = []"
  "readyFifo exampleStarted = replicate 128 reset_entry"
  "cardRaises exampleStarted = (\<lambda>log cmd. False)"
  by (simp_all add: exampleStarted_eq)

lemmas example_first = example_round [OF reachable_exampleStarted exampleStarted_fields]







lemma exampleZeroLength_facts:
  "reachable exampleConstants exampleZeroLength"
  "mReadyQueue exampleZeroLength = []"
  "mTransferQueue exampleZeroLength = [exampleSuperpage]"
  "mReadyQueue (snd (fillSuperpages exampleConstants exampleZeroLength))
     = [exampleSuperpage\<lparr>received := 0, ready := True\<rparr>]"
proof -
  note e = example_first [where len = 0, folded exampleZeroLength_def]
  note u = example_push_write [OF exampleStarted_fields,
      where e = "\<lparr>length_words = 0, status = 0x82\<rparr>", folded exampleZeroLength_def]
  show "reachable exampleConstants exampleZeroLength" by (rule e(1))
  show "mReadyQueue exampleZeroLength = []" using e(4) by (simp add: exampleStarted_eq)
  show "mTransferQueue exampleZeroLength = [exampleSuperpage]" by (rule u(4))
  have "getLength \<lparr>length_words = 0, status = 0x82\<rparr> = 0" by (simp add: getLength_small)
  then show "mReadyQueue (snd (fillSuperpages exampleConstants exampleZeroLength))
     = [exampleSuperpage\<lparr>received := 0, ready := True\<rparr>]"
    using e(12) by (simp add: exampleStarted_eq push_back_def)
qed

lemma exampleTooLong_facts:
  "reachable exampleConstants exampleTooLong"
  "mReadyQueue exampleTooLong = []"
  "mTransferQueue exampleTooLong = [exampleSuperpage]"
  "mReadyQueue (snd (fillSuperpages exampleConstants exampleTooLong))
     = [exampleSuperpage\<lparr>received := 262144, ready := True\<rparr>]"
proof -
  note e = example_first [where len = 65536, folded exampleTooLong_def]
  note u = example_push_write [OF exampleStarted_fields,
      where e = "\<lparr>length_words = 65536, status = 0x82\<rparr>", folded exampleTooLong_def]
  show "reachable exampleConstants exampleTooLong" by (rule e(1))
  show "mReadyQueue exampleTooLong = []" using e(4) by (simp add: exampleStarted_eq)
  show "mTransferQueue exampleTooLong = [exampleSuperpage]" by (rule u(4))
  have "getLength \<lparr>length_words = 65536, status = 0x82\<rparr> = 262144"
    by (simp add: getLength_small)
  then show "mReadyQueue (snd (fillSuperpages exampleConstants exampleTooLong))
     = [exampleSuperpage\<lparr>received := 262144, ready := True\<rparr>]"
    using e(12) by (simp add: exampleStarted_eq push_back_def)
qed

lemma fee_new:
  "CrorcDmaChannel_new exampleConstants feeParameters exampleHeader = Inr feeConstructed"
  by (simp add: CrorcDmaChannel_new_def exampleConstants_def feeParameters_def
      exampleHeader_def feeConstructed_def deviceResetChannelInternal_def)

lemma fee_start:
  "deviceStartDma exampleConstants feeConstructed =
    (None,
     \<lparr>mPageSize = 8192, mSTBRD = False, mRDYRX = True, mUseFeeAddress = False,
      mGeneratorEnabled = False, mDataSource = Fee,
      mFreeFifoFront = 0, mFreeFifoBack = 0, mFreeFifoSize = 0,
      mReadyQueue = [], mTransferQueue = [], mPendingDmaStart = True,
      readyFifo = replicate 128 reset_entry,
      crorc = [InitDiuVersion, ResetCommand [RORC, FF, FIFOS, ERROR, COUNTERS],
               InitDiuVersion, ResetCommand [RORC], ArmDdl DIU, ArmDdl SIU, ArmDdl DIU,
               ArmDdl RORC, AssertLinkUp, SiuCommandRandCIFST, DiuCommandRandCIFST,
               ResetCommand [FF], AssertFreeFifoEmpty, StartDataReceiver],
      cardRaises = (\<lambda>log cmd. False)\<rparr>)"
  by (simp add: deviceStartDma_def armDdl_def startDataReceiving_def feeConstructed_def
      exampleConstants_def Let_def)

lemma feeStarted_eq:
  "feeStarted =
     \<lparr>mPageSize = 8192, mSTBRD = False, mRDYRX = True, mUseFeeAddress = False,
      mGeneratorEnabled = False, mDataSource = Fee,
      mFreeFifoFront = 0, mFreeFifoBack = 0, mFreeFifoSize = 0,
      mReadyQueue = [], mTransferQueue = [], mPendingDmaStart = True,
      readyFifo = replicate 128 reset_entry,
      crorc = [InitDiuVersion, ResetCommand [RORC, FF, FIFOS, ERROR, COUNTERS],
               InitDiuVersion, ResetCommand [RORC], ArmDdl DIU, ArmDdl SIU, ArmDdl DIU,
               ArmDdl RORC, AssertLinkUp, SiuCommandRandCIFST, DiuCommandRandCIFST,
               ResetCommand [FF], AssertFreeFifoEmpty, StartDataReceiver],
      cardRaises = (\<lambda>log cmd. False)\<rparr>"
  unfolding feeStarted_def by (simp only: fee_start snd_conv)

lemma reachable_feeStarted: "reachable exampleConstants feeStarted"
proof (rule reachable.started [OF _ fee_new])
  show "0 < MAX_SUPERPAGE_DESCRIPTORS exampleConstants" by (simp add: exampleConstants_def)
  show "deviceStartDma exampleConstants feeConstructed = (None, feeStarted)"
    by (simp only: fee_start feeStarted_eq)
qed

lemma feeLinkDown_eq:
  "feeLinkDown =
     \<lparr>mPageSize = 8192, mSTBRD = False, mRDYRX = True, mUseFeeAddress = False,
      mGeneratorEnabled = False, mDataSource = Fee,
      mFreeFifoFront = 1, mFreeFifoBack = 0, mFreeFifoSize = 1,
      mReadyQueue = [], mTransferQueue = [exampleSuperpage], mPendingDmaStart = True,
      readyFifo = (replicate 128 reset_entry)[0 := \<lparr>length_words = 2048, status = 0x82\<rparr>],
      crorc = [InitDiuVersion, ResetCommand [RORC, FF, FIFOS, ERROR, COUNTERS],
               InitDiuVersion, ResetCommand [RORC], ArmDdl DIU, ArmDdl SIU, ArmDdl DIU,
               ArmDdl RORC, AssertLinkUp, SiuCommandRandCIFST, DiuCommandRandCIFST,
               ResetCommand [FF], AssertFreeFifoEmpty, StartDataReceiver,
               PushRxFreeFifo 0 2048 0],
      cardRaises = (\<lambda>log cmd. cmd = AssertLinkUp)\<rparr>"
  by (simp add: feeLinkDown_def run_def feeStarted_eq pushSuperpage_def
      pushFreeFifoPage_8192 push_back_def exampleConstants_def exampleSuperpage_def)

lemma reachable_feeLinkDown: "reachable exampleConstants feeLinkDown"
  unfolding feeLinkDown_def by (rule reachable_run) (rule reachable_feeStarted)

lemma fill_feeLinkDown:
  "fillSuperpages exampleConstants feeLinkDown = (Some (CardException AssertLinkUp), feeLinkDown)"
  by (simp add: feeLinkDown_eq fillSuperpages_def startPendingDma_def)



lemma run_pushes:
  assumes "checkSuperpage c sp"
    and "mFreeFifoSize s = 0" and "mFreeFifoFront s = 0" and "mFreeFifoBack s = 0"
    and "mTransferQueue s = []" and "cardRaises s = (\<lambda>log cmd. False)"
    and "n \<le> TRANSFER_QUEUE_CAPACITY c" and "n \<le> MAX_SUPERPAGE_DESCRIPTORS c"
  shows "mFreeFifoSize (run c (replicate n (PushSuperpage sp)) s) = n
       \<and> mFreeFifoFront (run c (replicate n (PushSuperpage sp)) s)
           = n mod MAX_SUPERPAGE_DESCRIPTORS c
       \<and> mFreeFifoBack (run c (replicate n (PushSuperpage sp)) s) = 0
       \<and> mTransferQueue (run c (replicate n (PushSuperpage sp)) s) = replicate n sp
       \<and> cardRaises (run c (replicate n (PushSuperpage sp)) s) = (\<lambda>log cmd. False)"
  using assms(7,8)
proof (induction n)
  case 0
  with assms show ?case by (simp add: run_def)
next
  case (Suc n)
  let ?t = "run c (replicate n (PushSuperpage sp)) s"
  have step: "run c (replicate (Suc n) (PushSuperpage sp)) s = snd (pushSuperpage c sp ?t)"
    using run_snoc [of c "replicate n (PushSuperpage sp)" "PushSuperpage sp" s]
    by (simp add: replicate_append_same)
  from Suc have ih: "mFreeFifoSize ?t = n" "mFreeFifoFront ?t = n mod MAX_SUPERPAGE_DESCRIPTORS c"
      "mFreeFifoBack ?t = 0" "mTransferQueue ?t = replicate n sp"
      "cardRaises ?t = (\<lambda>log cmd. False)"
    by simp_all
  show ?case
    unfolding step using ih Suc.prems assms(1)
    by (simp add: pushSuperpage_def Let_def pushFreeFifoPage_def push_back_def mod_Suc_eq
        replicate_append_same)
qed

lemma exampleFull_fields:
  "mFreeFifoSize exampleFull = 128" "mFreeFifoFront exampleFull = 0"
  "mFreeFifoBack exampleFull = 0" "length (mTransferQueue exampleFull) = 128"
  using run_pushes [of exampleConstants exampleSuperpage exampleStarted 128]
  by (simp_all add: exampleFull_def exampleConstants_def exampleSuperpage_def exampleStarted_eq)

lemma reachable_exampleFull: "reachable exampleConstants exampleFull"
  unfolding exampleFull_def by (rule reachable_run) (rule reachable_exampleStarted)

lemma examplePushed_eq:
  "examplePushed =
    \<lparr>mPageSize = 8192, mSTBRD = False, mRDYRX = False, mUseFeeAddress = False,
     mGeneratorEnabled = True, mDataSource = Internal,
     mFreeFifoFront = 1, mFreeFifoBack = 0, mFreeFifoSize = 1,
     mReadyQueue = [], mTransferQueue = [exampleSuperpage], mPendingDmaStart = True,
     readyFifo = replicate 128 reset_entry,
     crorc = [InitDiuVersion, ResetCommand [RORC, FF, FIFOS, ERROR, COUNTERS],
              InitDiuVersion, ResetCommand [RORC], ResetCommand [FF], AssertFreeFifoEmpty,
              StartDataReceiver, PushRxFreeFifo 0 2048 0],
     cardRaises = (\<lambda>log cmd. False)\<rparr>"
  by (simp add: examplePushed_def run_def exampleStarted_eq pushSuperpage_def
      pushFreeFifoPage_8192 push_back_def exampleConstants_def exampleSuperpage_def)

lemma reachable_examplePushed: "reachable exampleConstants examplePushed"
  unfolding examplePushed_def by (rule reachable_run) (rule reachable_exampleStarted)

lemma fill_examplePushed:
  "fillSuperpages exampleConstants examplePushed =
    (None,
     \<lparr>mPageSize = 8192, mSTBRD = False, mRDYRX = False, mUseFeeAddress = False,
      mGeneratorEnabled = True, mDataSource = Internal,
      mFreeFifoFront = 1, mFreeFifoBack = 0, mFreeFifoSize = 1,
      mReadyQueue = [], mTransferQueue = [exampleSuperpage], mPendingDmaStart = False,
      readyFifo = replicate 128 reset_entry,
      crorc = [InitDiuVersion, ResetCommand [RORC, FF, FIFOS, ERROR, COUNTERS],
               InitDiuVersion, ResetCommand [RORC], ResetCommand [FF], AssertFreeFifoEmpty,
               StartDataReceiver, PushRxFreeFifo 0 2048 0,
               ArmDataGenerator 8192, SetLoopbackOn, StartDataGenerator],
      cardRaises = (\<lambda>log cmd. False)\<rparr>)"
  by (simp add: fillSuperpages_def examplePushed_eq startPendingDma_def startDataGenerator_def
      dataArrived_def reset_entry_def exampleConstants_def Let_def)

lemma exampleErrorBit_eq:
  "exampleErrorBit =
    \<lparr>mPageSize = 8192, mSTBRD = False, mRDYRX = False, mUseFeeAddress = False,
     mGeneratorEnabled = True, mDataSource = Internal,
     mFreeFifoFront = 1, mFreeFifoBack = 0, mFreeFifoSize = 1,
     mReadyQueue = [], mTransferQueue = [exampleSuperpage], mPendingDmaStart = False,
     readyFifo = (replicate 128 reset_entry)
        [0 := \<lparr>length_words = 2048, status = 0x80000082\<rparr>],
     crorc = [InitDiuVersion, ResetCommand [RORC, FF, FIFOS, ERROR, COUNTERS],
              InitDiuVersion, ResetCommand [RORC], ResetCommand [FF], AssertFreeFifoEmpty,
              StartDataReceiver, PushRxFreeFifo 0 2048 0,
              ArmDataGenerator 8192, SetLoopbackOn, StartDataGenerator],
     cardRaises = (\<lambda>log cmd. False)\<rparr>"
proof -
  have "exampleErrorBit =
      perform exampleConstants (CardWrite 0 \<lparr>length_words = 2048, status = 0x80000082\<rparr>)
        (snd (fillSuperpages exampleConstants examplePushed))"
    by (simp add: exampleErrorBit_def examplePushed_def run_def)
  then show ?thesis
    by (simp add: fill_examplePushed)
qed

lemma reachable_exampleErrorBit: "reachable exampleConstants exampleErrorBit"
  unfolding exampleErrorBit_def by (rule reachable_run) (rule reachable_exampleStarted)

lemma recognised_written:
  assumes "readyFifo s = (replicate 128 reset_entry)[0 := \<lparr>length_words = len, status = 0x82\<rparr>]"
  shows "list_all (\<lambda>e. recognised exampleConstants (status e)) (readyFifo s)"
proof -
  have "recognised exampleConstants (status e)" if "e \<in> set (readyFifo s)" for e
  proof -
    from that have "e \<in> insert \<lparr>length_words = len, status = 0x82\<rparr>
        (set (replicate 128 reset_entry))"
      using set_update_subset_insert
        [of "replicate 128 reset_entry" 0 "\<lparr>length_words = len, status = 0x82\<rparr>"]
      by (auto simp: assms)
    then show ?thesis
      by (auto simp: recognised_def reset_entry_def exampleConstants_def)
  qed
  then show ?thesis by (simp add: list_all_iff)
qed

text \<open>
  Claim C2 as stated fails. A running channel with one superpage in flight, whose
  descriptor the card has written with status 0x80000082 (DTSW with the error bit), makes
  fillSuperpages raise the data arrival exception. And a channel reading from the
  front-end whose start is pending and whose link is down makes it raise on assertLinkUp,
  although every status word is a recognised one.
\<close>

theorem fillSuperpages_raises_counterexample:
  "(reachable exampleConstants exampleErrorBit \<and> \<not> mPendingDmaStart exampleErrorBit
    \<and> fst (fillSuperpages exampleConstants exampleErrorBit)
        = Some (CrorcDataArrivalException ''Data arrival status word contains error bits''
                  0x80000082 2048 0))
   \<and> (reachable exampleConstants feeLinkDown \<and> mPendingDmaStart feeLinkDown
    \<and> list_all (\<lambda>e. recognised exampleConstants (status e)) (readyFifo feeLinkDown)
    \<and> fst (fillSuperpages exampleConstants feeLinkDown) = Some (CardException AssertLinkUp)
    \<and> mPendingDmaStart (snd (fillSuperpages exampleConstants feeLinkDown)))"
proof -
  have a: "\<not> mPendingDmaStart exampleErrorBit" by (simp add: exampleErrorBit_eq)
  have b: "fst (fillSuperpages exampleConstants exampleErrorBit)
        = Some (CrorcDataArrivalException ''Data arrival status word contains error bits''
                  0x80000082 2048 0)"
    by (simp add: exampleErrorBit_eq fillSuperpages_def dataArrived_def exampleConstants_def
        Let_def)
  have c: "mPendingDmaStart feeLinkDown" by (simp add: feeLinkDown_eq)
  have d: "list_all (\<lambda>e. recognised exampleConstants (status e)) (readyFifo feeLinkDown)"
    by (rule recognised_written [of _ 2048]) (simp add: feeLinkDown_eq)
  have e: "fst (fillSuperpages exampleConstants feeLinkDown) = Some (CardException AssertLinkUp)"
    by (simp add: fill_feeLinkDown)
  have f: "mPendingDmaStart (snd (fillSuperpages exampleConstants feeLinkDown))"
    using c by (simp add: fill_feeLinkDown)
  show ?thesis
    by (intro conjI reachable_exampleErrorBit reachable_feeLinkDown a b c d e f)
qed

text \<open>
  Claim C3 as stated fails when the ring is full: after 128 pushes with
  MAX_SUPERPAGE_DESCRIPTORS = TRANSFER_QUEUE_CAPACITY = 128 the size is 128, front and
  back are both 0, and (0 - 0) mod 128 is 0.
\<close>

theorem freeFifoSize_full_ring_counterexample:
  "reachable exampleConstants exampleFull
   \<and> mFreeFifoSize exampleFull = 128 \<and> mFreeFifoFront exampleFull = 0
   \<and> mFreeFifoBack exampleFull = 0
   \<and> int (mFreeFifoSize exampleFull)
       \<noteq> (int (mFreeFifoFront exampleFull) - int (mFreeFifoBack exampleFull))
           mod int (MAX_SUPERPAGE_DESCRIPTORS exampleConstants)"
  using reachable_exampleFull by (simp add: exampleFull_fields exampleConstants_def)

text \<open>
  Claim C5 as stated fails on both bounds. When the card writes a descriptor with status
  DTSW and length 0, fillSuperpages delivers the superpage with the ready flag set and
  received = 0; when it writes length 65536 for a superpage of 8192 bytes, the superpage
  is delivered with received = 262144.
\<close>

theorem fillSuperpages_received_out_of_range_counterexample:
  "(reachable exampleConstants exampleZeroLength
    \<and> mReadyQueue exampleZeroLength = []
    \<and> mTransferQueue exampleZeroLength = [exampleSuperpage]
    \<and> mReadyQueue (snd (fillSuperpages exampleConstants exampleZeroLength))
        = [exampleSuperpage\<lparr>received := 0, ready := True\<rparr>])
   \<and> (reachable exampleConstants exampleTooLong
    \<and> mReadyQueue exampleTooLong = []
    \<and> mTransferQueue exampleTooLong = [exampleSuperpage]
    \<and> mReadyQueue (snd (fillSuperpages exampleConstants exampleTooLong))
        = [exampleSuperpage\<lparr>received := 262144, ready := True\<rparr>]
    \<and> size_bytes exampleSuperpage = 8192)"
proof -
  have s: "size_bytes exampleSuperpage = 8192" by (simp add: exampleSuperpage_def)
  show ?thesis by (intro conjI exampleZeroLength_facts exampleTooLong_facts s)
qed

text \<open>
  Claim C6 as stated fails: on a channel reading from the front-end with one superpage
  pushed and the link down, the first fillSuperpages that sees the transfer queue
  non-empty raises on assertLinkUp; the start is still pending and neither the
  generator nor the trigger has been started.
\<close>

theorem fillSuperpages_start_refused_counterexample:
  "reachable exampleConstants feeLinkDown \<and> mPendingDmaStart feeLinkDown
   \<and> mTransferQueue feeLinkDown \<noteq> []
   \<and> fillSuperpages exampleConstants feeLinkDown
       = (Some (CardException AssertLinkUp), feeLinkDown)
   \<and> mPendingDmaStart (snd (fillSuperpages exampleConstants feeLinkDown))
   \<and> StartDataGenerator \<notin> set (crorc (snd (fillSuperpages exampleConstants feeLinkDown)))
   \<and> StartTrigger RDYRX \<notin> set (crorc (snd (fillSuperpages exampleConstants feeLinkDown)))
   \<and> StartTrigger STBRD \<notin> set (crorc (snd (fillSuperpages exampleConstants feeLinkDown)))"
proof -
  have a: "mPendingDmaStart feeLinkDown" "mTransferQueue feeLinkDown \<noteq> []"
    "StartDataGenerator \<notin> set (crorc feeLinkDown)"
    "StartTrigger RDYRX \<notin> set (crorc feeLinkDown)"
    "StartTrigger STBRD \<notin> set (crorc feeLinkDown)"
    by (simp_all add: feeLinkDown_eq)
  have b: "snd (fillSuperpages exampleConstants feeLinkDown) = feeLinkDown"
    by (simp add: fill_feeLinkDown)
  show ?thesis unfolding b by (intro conjI reachable_feeLinkDown fill_feeLinkDown a)
qed

text \<open>
  The statement of C2 at a channel whose ready FIFO holds one arrived descriptor and
  otherwise reset entries, on a card that accepts the start commands.
\<close>

theorem fillSuperpages_failures_witness:
  "reachable exampleConstants exampleArrived
   \<and> list_all (\<lambda>e. recognised exampleConstants (status e)) (readyFifo exampleArrived)
   \<and> mPendingDmaStart exampleArrived
   \<and> accepted exampleArrived (pendingDmaCommands exampleArrived)
   \<and> fst (fillSuperpages exampleConstants exampleArrived) = None"
proof -
  have r: "reachable exampleConstants exampleArrived" by (rule reachable_exampleArrived)
  have ok: "list_all (\<lambda>e. recognised exampleConstants (status e)) (readyFifo exampleArrived)"
    by (rule recognised_written [of _ 2048]) (simp add: exampleArrived_eq)
  have p: "mPendingDmaStart exampleArrived" by (simp add: exampleArrived_eq)
  have acc: "accepted exampleArrived (pendingDmaCommands exampleArrived)"
    by (rule accepted_never) (simp add: exampleArrived_eq)
  have "fst (fillSuperpages exampleConstants exampleArrived) = None"
    using fillSuperpages_failures [OF r, THEN conjunct2] ok acc by (simp add: list_all_iff)
  with r ok p acc show ?thesis by (intro conjI)
qed

text \<open>
  The statement of C3 at a channel with one superpage pushed.
\<close>

theorem freeFifoSize_front_back_witness:
  "reachable exampleConstants exampleArrived
   \<and> mFreeFifoSize exampleArrived = 1 \<and> mFreeFifoFront exampleArrived = 1
   \<and> mFreeFifoBack exampleArrived = 0
   \<and> int (mFreeFifoSize exampleArrived)
       = (int (mFreeFifoFront exampleArrived) - int (mFreeFifoBack exampleArrived))
           mod int (MAX_SUPERPAGE_DESCRIPTORS exampleConstants)"
proof -
  have r: "reachable exampleConstants exampleArrived" by (rule reachable_exampleArrived)
  have f: "mFreeFifoSize exampleArrived = 1" "mFreeFifoFront exampleArrived = 1"
      "mFreeFifoBack exampleArrived = 0"
    by (simp_all add: exampleArrived_eq)
  from freeFifoSize_front_back [OF r] show ?thesis using r f by (simp add: exampleConstants_def)
qed

text \<open>
  The statement of C4 at a channel after 128 pushes, with capacity 128.
\<close>

theorem pushSuperpage_transfer_queue_full_witness:
  "checkSuperpage exampleConstants exampleSuperpage
   \<and> length (mTransferQueue exampleFull) = TRANSFER_QUEUE_CAPACITY exampleConstants
   \<and> pushSuperpage exampleConstants exampleSuperpage exampleFull
       = (Some (Exception ''Could not push superpage, transfer queue was full''), exampleFull)"
proof -
  have v: "checkSuperpage exampleConstants exampleSuperpage"
    by (simp add: exampleConstants_def exampleSuperpage_def)
  have l: "length (mTransferQueue exampleFull) = TRANSFER_QUEUE_CAPACITY exampleConstants"
    by (simp add: exampleFull_fields exampleConstants_def)
  from pushSuperpage_transfer_queue_full [OF v l] show ?thesis using v l by simp
qed

text \<open>
  The statement of C5 at a channel with one pushed superpage whose descriptor has wholly
  arrived.
\<close>

theorem fillSuperpages_delivered_witness:
  "reachable exampleConstants exampleArrived
   \<and> (\<exists>new. mReadyQueue (snd (fillSuperpages exampleConstants exampleArrived))
          = drop (length (mReadyQueue exampleArrived @ new)
                   - READY_QUEUE_CAPACITY exampleConstants)
              (mReadyQueue exampleArrived @ new) \<and>
      (\<forall>sp \<in> set new. ready sp \<and> 4 dvd received sp
         \<and> (\<exists>e \<in> set (readyFifo exampleArrived).
               wholeArrived exampleConstants e \<and> received sp = getLength e)
         \<and> (\<exists>q \<in> set (mTransferQueue exampleArrived).
               sp = q\<lparr>received := received sp, ready := True\<rparr>)))"
proof -
  have r: "reachable exampleConstants exampleArrived" by (rule reachable_exampleArrived)
  from fillSuperpages_delivered [OF r] show ?thesis using r by (intro conjI)
qed

text \<open>
  The statement of C6 at a started channel with one superpage pushed, on a card that
  accepts the start commands.
\<close>

theorem fillSuperpages_deferred_start_witness:
  "reachable exampleConstants examplePushed \<and> mPendingDmaStart examplePushed
   \<and> mTransferQueue examplePushed \<noteq> []
   \<and> accepted examplePushed (pendingDmaCommands examplePushed)
   \<and> \<not> mPendingDmaStart (snd (fillSuperpages exampleConstants examplePushed))
   \<and> crorc (snd (fillSuperpages exampleConstants examplePushed))
       = crorc examplePushed @ [ArmDataGenerator 8192, SetLoopbackOn, StartDataGenerator]"
proof -
  have r: "reachable exampleConstants examplePushed" by (rule reachable_examplePushed)
  have p: "mPendingDmaStart examplePushed" by (simp add: examplePushed_eq)
  have q: "mTransferQueue examplePushed \<noteq> []" by (simp add: examplePushed_eq)
  have acc: "accepted examplePushed (pendingDmaCommands examplePushed)"
    by (rule accepted_never) (simp add: examplePushed_eq)
  have cmds: "pendingDmaCommands examplePushed
      = [ArmDataGenerator 8192, SetLoopbackOn, StartDataGenerator]"
    by (simp add: pendingDmaCommands_def examplePushed_eq)
  from fillSuperpages_deferred_start [OF r p] q acc
  have "\<not> mPendingDmaStart (snd (fillSuperpages exampleConstants examplePushed))
       \<and> crorc (snd (fillSuperpages exampleConstants examplePushed))
           = crorc examplePushed @ pendingDmaCommands examplePushed"
    by simp
  with r p q acc show ?thesis unfolding cmds by (intro conjI) simp_all
qed

text \<open>
  The statement of C9 at a channel with one superpage pushed, with capacity 128 and 128
  descriptors.
\<close>

theorem transferQueue_size_is_freeFifoSize_witness:
  "reachable exampleConstants exampleArrived
   \<and> TRANSFER_QUEUE_CAPACITY exampleConstants \<le> MAX_SUPERPAGE_DESCRIPTORS exampleConstants
   \<and> length (mTransferQueue exampleArrived) = mFreeFifoSize exampleArrived
   \<and> fst (pushSuperpage exampleConstants exampleSuperpage exampleArrived) \<noteq> Some (Exception
        ''Could not push superpage, firmware queue was full (this should never happen)'')"
proof -
  have r: "reachable exampleConstants exampleArrived" by (rule reachable_exampleArrived)
  have le: "TRANSFER_QUEUE_CAPACITY exampleConstants \<le> MAX_SUPERPAGE_DESCRIPTORS exampleConstants"
    by (simp add: exampleConstants_def)
  from transferQueue_size_is_freeFifoSize [OF r, of exampleSuperpage] le show ?thesis using r by blast
qed

section \<open>Properties of the pattern checker\<close>

lemma addError_fields:
  "mErrorCount (addError ev i c e a b) = mErrorCount b + 1"
  "mVerbose (addError ev i c e a b) = mVerbose b"
  "mDataGeneratorCounter (addError ev i c e a b) = mDataGeneratorCounter b"
  "noResyncCounter (addError ev i c e a b) = noResyncCounter b"
  "pageReset (addError ev i c e a b) = pageReset b"
  "mCardType (addError ev i c e a b) = mCardType b"
  "generatorPattern (addError ev i c e a b) = generatorPattern b"
  by (simp_all add: addError_def Let_def)

lemma addError_stream:
  "mErrorStream (addError ev i c e a b) =
     (if mVerbose b \<and> mErrorCount b + 1 < 1000
      then mErrorStream b @ formatError ev i c e a else mErrorStream b)"
  by (simp add: addError_def Let_def MAX_RECORDED_ERRORS_def)














lemma errorLine_formatError:
  "errorLine (ev, i, c, e, a) = formatError ev i c e a"
  by (simp add: errorLine_def formatError_def)

lemma recordError_fields:
  "mErrorCount (recordError b d) = mErrorCount b + 1"
  "mVerbose (recordError b d) = mVerbose b"
  "mErrorStream (recordError b d) =
     (if mVerbose b \<and> mErrorCount b + 1 < 1000
      then mErrorStream b @ errorLine d else mErrorStream b)"
  by (cases d; simp add: recordError_def addError_fields addError_stream errorLine_formatError)+

lemma recordErrors_general:
  assumes "mErrorCount b = int k"
  shows "mErrorCount (recordErrors ds b) = int (k + length ds)
    \<and> mVerbose (recordErrors ds b) = mVerbose b
    \<and> mErrorStream (recordErrors ds b)
        = mErrorStream b
          @ (if mVerbose b then concat (map errorLine (take (999 - k) ds)) else [])"
  using assms
proof (induction ds arbitrary: b k)
  case Nil
  then show ?case by (simp add: recordErrors_def)
next
  case (Cons d ds)
  let ?b1 = "recordError b d"
  have step: "recordErrors (d # ds) b = recordErrors ds ?b1"
    by (simp add: recordErrors_def)
  have c1: "mErrorCount ?b1 = int (Suc k)"
    using Cons.prems by (simp add: recordError_fields)
  note ih = Cons.IH [OF c1]
  show ?case
  proof (cases "k < 999")
    case True
    then have "999 - k = Suc (999 - Suc k)" by simp
    then have tk: "take (999 - k) (d # ds) = d # take (999 - Suc k) ds"
      by (simp only: take_Suc_Cons)
    from True Cons.prems show ?thesis
      unfolding step tk using ih by (simp add: recordError_fields)
  next
    case False
    then have "999 - k = 0" "999 - Suc k = 0" by simp_all
    with False Cons.prems show ?thesis
      unfolding step using ih by (simp add: recordError_fields)
  qed
qed

lemma recordErrors_output:
  assumes "mErrorCount b = 0" and "mErrorStream b = []"
  shows "outputErrors (recordErrors ds b)
    = (if mVerbose b then concat (map errorLine (take 999 ds)) else [])"
  using recordErrors_general [of b 0 ds] assms by (simp add: outputErrors_def)

lemma digit_set: "d < 16 \<Longrightarrow> digit d \<in> set ''0123456789abcdef''"
  unfolding digit_def by (rule nth_mem) simp

lemma decimalNat_set: "set (decimalNat n) \<subseteq> set ''0123456789abcdef''"
proof (induction n rule: decimalNat.induct)
  case (1 n)
  show ?case
  proof (cases "n < 10")
    case True
    then have "digit n \<in> set ''0123456789abcdef''" by (intro digit_set) simp
    with True show ?thesis by (subst decimalNat.simps) simp
  next
    case False
    have "digit (n mod 10) \<in> set ''0123456789abcdef''" by (intro digit_set) simp
    with False "1.IH" show ?thesis by (subst decimalNat.simps) simp
  qed
qed

lemma hexNat_set: "set (hexNat n) \<subseteq> set ''0123456789abcdef''"
proof (induction n rule: hexNat.induct)
  case (1 n)
  show ?case
  proof (cases "n < 16")
    case True
    then have "digit n \<in> set ''0123456789abcdef''" by (intro digit_set) simp
    with True show ?thesis by (subst hexNat.simps) simp
  next
    case False
    have "digit (n mod 16) \<in> set ''0123456789abcdef''" by (intro digit_set) simp
    with False "1.IH" show ?thesis by (subst hexNat.simps) simp
  qed
qed

lemma newline_not_digit: "CHR 0x0A \<notin> set ''0123456789abcdef''"
  by simp

lemma decimal_no_newline: "CHR 0x0A \<notin> set (decimalNat n)" "CHR 0x0A \<notin> set (hexNat n)"
  "CHR 0x0A \<notin> set (decimal k)"
  using decimalNat_set hexNat_set newline_not_digit
  by (auto simp: decimal_def simp del: decimalNat.simps hexNat.simps)

lemma errorLine_one_line:
  "last (errorLine d) = CHR 0x0A \<and> CHR 0x0A \<notin> set (butlast (errorLine d))"
  by (cases d) (simp add: errorLine_def butlast_append decimal_no_newline
      del: decimalNat.simps hexNat.simps)

text \<open>
  Claim C8, amended. Every discrepancy is counted. With the verbose option the error file
  starts with the lines of the first 999 discrepancies, in order, each of the form
  \<open>event:N i:I cnt:C exp:0xE val:0xV\<close> and ending in its only newline; without the
  verbose option the file is empty. In both cases the file does not depend on the
  discrepancies after the first 1000.
\<close>

theorem recorded_errors_output:
  assumes "mErrorCount b = 0" and "mErrorStream b = []"
  shows "mErrorCount (recordErrors ds b) = int (length ds)
    \<and> (if mVerbose b
        then \<exists>rest. outputErrors (recordErrors ds b)
               = concat (map errorLine (take 999 ds)) @ rest
        else outputErrors (recordErrors ds b) = [])
    \<and> outputErrors (recordErrors ds b) = outputErrors (recordErrors (take 1000 ds) b)
    \<and> (\<forall>d. last (errorLine d) = CHR 0x0A \<and> CHR 0x0A \<notin> set (butlast (errorLine d)))"
proof (intro conjI)
  show "mErrorCount (recordErrors ds b) = int (length ds)"
    using recordErrors_general [of b 0 ds] assms by simp
  show "if mVerbose b
        then \<exists>rest. outputErrors (recordErrors ds b)
               = concat (map errorLine (take 999 ds)) @ rest
        else outputErrors (recordErrors ds b) = []"
    by (simp add: recordErrors_output [OF assms])
  show "outputErrors (recordErrors ds b) = outputErrors (recordErrors (take 1000 ds) b)"
    by (simp add: recordErrors_output [OF assms])
  show "\<forall>d. last (errorLine d) = CHR 0x0A \<and> CHR 0x0A \<notin> set (butlast (errorLine d))"
    using errorLine_one_line by blast
qed


text \<open>
  The statement of C8 at a verbose run with one discrepancy, and the line it writes.
\<close>

theorem recorded_errors_output_witness:
  "mErrorCount exampleBench = 0 \<and> mErrorStream exampleBench = [] \<and> mVerbose exampleBench
   \<and> mErrorCount (recordErrors [(3, 9, 5, 8, 77)] exampleBench) = 1
   \<and> outputErrors (recordErrors [(3, 9, 5, 8, 77)] exampleBench)
       = ''event:3 i:9 cnt:5 exp:0x8 val:0x4d'' @ [CHR 0x0A]"
proof -
  have h: "mErrorCount exampleBench = 0" "mErrorStream exampleBench = []"
      and v: "mVerbose exampleBench"
    by (simp_all add: exampleBench_def)
  have l: "errorLine (3, 9, 5, 8, 77) = ''event:3 i:9 cnt:5 exp:0x8 val:0x4d'' @ [CHR 0x0A]"
    by (simp add: errorLine_def decimal_def digit_def)
  have "mErrorCount (recordErrors [(3, 9, 5, 8, 77)] exampleBench)
      = int (length [(3 :: int, 9 :: nat, 5 :: u32, 8 :: u32, 77 :: u32)])"
    by (rule recorded_errors_output [OF h, THEN conjunct1])
  then have c: "mErrorCount (recordErrors [(3, 9, 5, 8, 77)] exampleBench) = 1" by simp
  have "outputErrors (recordErrors [(3, 9, 5, 8, 77)] exampleBench)
      = errorLine (3, 9, 5, 8, 77)"
    by (simp add: recordErrors_output [OF h] v)
  then have out: "outputErrors (recordErrors [(3, 9, 5, 8, 77)] exampleBench)
       = ''event:3 i:9 cnt:5 exp:0x8 val:0x4d'' @ [CHR 0x0A]"
    by (simp only: l)
  show ?thesis by (intro conjI h v c out)
qed

text \<open>
  Claim C8 as stated fails: in a run without the verbose option the checker finds word 8
  of a page of zeros different from the constant pattern, counts the error, and writes
  nothing.
\<close>

theorem quiet_run_writes_nothing_counterexample:
  "\<not> mVerbose exampleQuiet
   \<and> checkErrors zeroPage 64 0 0 exampleQuiet = Inr (True, exampleQuiet\<lparr>mErrorCount := 1\<rparr>)
   \<and> outputErrors (exampleQuiet\<lparr>mErrorCount := 1\<rparr>) = []"
  by (simp add: checkErrors_def checkErrorsCrorc_def exampleQuiet_def zeroPage_def Let_def
      addError_def outputErrors_def MAX_RECORDED_ERRORS_def)


end
